theory Spec2Isabelle
  imports Complex_Main "HOL-Library.Char_ord" "HOL-Library.List_Lexorder" "HOL-Library.Log_Nat"
begin

section \<open>The RFM segmentation of \<open>dashboard/Dashboard.py\<close>\<close>

text \<open>
  The development embeds \<open>create_rfm_df\<close> (Dashboard.py, lines 52 to 99) and the pandas
  operations it calls. A data frame is a list of rows in frame order. Strings compare as
  Python compares them, character by character.

  Timestamps are counts of nanoseconds held in 64 bits: pandas raises when a timestamp or
  a difference of two timestamps leaves that range, and so does the model. Prices, ranks
  and bin edges are float64 numbers. A float64 number is represented by the rational it
  denotes, and every operation of the quantile computation is rounded to the nearest
  float64, ties to even (\<open>fl\<close>). The routine that sums a column of floats is a parameter
  \<open>psum\<close> of the model; \<open>group_sum\<close> is the compensated summation that pandas uses in a
  group-by.
\<close>

subsection \<open>Tables\<close>

record OrderRow =
  customer_unique_id :: string
  order_id :: string
  order_purchase_timestamp :: int
  price :: rat

text \<open>
  \<open>RFMMetrics\<close> is a row of \<open>rfm_df\<close> after the aggregation and the renaming of its three
  columns (lines 57 to 73); \<open>customer\<close> is the index of the frame. \<open>CustomerRFM\<close> is the
  row after lines 77 to 95 have added the four derived columns. A score is \<open>None\<close> where
  pandas stores a missing value.
\<close>

record RFMMetrics =
  customer :: string
  recency :: int
  frequency :: nat
  monetary :: rat

record CustomerRFM = RFMMetrics +
  r_score :: "nat option"
  f_score :: "nat option"
  rf_score :: string
  customers_type :: string

record SegmentRevenue =
  seg_customers_type :: string
  seg_monetary :: rat

datatype error =
  BinEdgesNotUnique | LabelsNotUnique | BinLabelsMismatch
  | OutOfBoundsDatetime | OutOfBoundsTimedelta

subsection \<open>Float64 rounding\<close>

text \<open>
  \<open>floor_log2 y\<close> is the exponent \<open>e\<close> with \<open>2\<^sup>e \<le> y < 2\<^sup>e\<^sup>+\<^sup>1\<close> of a positive \<open>y\<close>, and \<open>fl x\<close>
  the float64 nearest to \<open>x\<close>: \<open>x\<close> is scaled to 53 significant bits, rounded to an integer
  with ties going to the even one, and scaled back. The exponent range of float64 is not
  part of the model: no overflow to infinity, no subnormal numbers.
\<close>

definition floor_log2 :: "rat \<Rightarrow> int" where
  "floor_log2 y = (if 1 \<le> y then bitlen \<lfloor>y\<rfloor> - 1 else - bitlen (\<lceil>1 / y\<rceil> - 1))"

definition round_half_even :: "rat \<Rightarrow> int" where
  "round_half_even z =
     (let f = \<lfloor>z\<rfloor>; r = z - of_int f
      in if r < 1 / 2 then f else if 1 / 2 < r then f + 1 else if even f then f else f + 1)"

definition fl :: "rat \<Rightarrow> rat" where
  "fl x = (if x = 0 then 0
           else let u = 2 powi (floor_log2 \<bar>x\<bar> - 52)
                in of_int (round_half_even (x / u)) * u)"

text \<open>
  The sum of one group in \<open>GroupBy.sum\<close> (\<open>group_sum\<close> of pandas' \<open>groupby.pyx\<close>): Kahan's
  compensated summation over the rows of the group in frame order.
\<close>

fun kahan :: "rat \<Rightarrow> rat \<Rightarrow> rat list \<Rightarrow> rat" where
  "kahan sumx compensation [] = sumx"
| "kahan sumx compensation (val # vals) =
     (let y = fl (val - compensation);
          t = fl (sumx + y)
      in kahan t (fl (fl (t - sumx) - y)) vals)"

definition group_sum :: "rat list \<Rightarrow> rat" where
  "group_sum vals = kahan 0 0 vals"

subsection \<open>Timestamps and grouping\<close>

definition int64_max :: int where
  "int64_max = 9223372036854775807"

definition Timedelta_days :: "int \<Rightarrow> int" where
  "Timedelta_days n = n * 86400000000000"

definition days :: "int \<Rightarrow> int" where
  "days td = td div 86400000000000"

text \<open>
  \<open>Timestamp + Timedelta\<close> and \<open>Timestamp - Timestamp\<close>: the result is checked against
  the range of 64-bit nanoseconds (\<open>OutOfBoundsDatetime\<close>, \<open>OutOfBoundsTimedelta\<close>).
\<close>

definition timestamp_add :: "int \<Rightarrow> int \<Rightarrow> error + int" where
  "timestamp_add t td =
     (if t + td < - int64_max \<or> int64_max < t + td then Inl OutOfBoundsDatetime
      else Inr (t + td))"

definition timestamp_sub :: "int \<Rightarrow> int \<Rightarrow> error + int" where
  "timestamp_sub t u =
     (if t - u < - int64_max \<or> int64_max < t - u then Inl OutOfBoundsTimedelta
      else Inr (t - u))"

fun series_max :: "int list \<Rightarrow> int option" where
  "series_max [] = None"
| "series_max (x # xs) = Some (fold max xs x)"

definition nunique :: "'a list \<Rightarrow> nat" where
  "nunique xs = length (remdups xs)"

text \<open>
  \<open>DataFrame.groupby(key)\<close>: one group per distinct key, groups in ascending key order,
  the rows of a group in frame order.
\<close>

definition groupby :: "('r \<Rightarrow> 'k::linorder) \<Rightarrow> 'r list \<Rightarrow> ('k \<times> 'r list) list" where
  "groupby key df =
     map (\<lambda>k. (k, filter (\<lambda>r. key r = k) df)) (sort (remdups (map key df)))"

text \<open>
  Lines 57 to 73: the aggregation of one group, with the columns already under their
  new names. \<open>max_date\<close> is the variable of line 54. The aggregation of the frame raises
  what the aggregation of a group raises.
\<close>

definition recency_days :: "int \<Rightarrow> int list \<Rightarrow> error + int" where
  "recency_days max_date x =
     (case series_max x of
        None \<Rightarrow> Inr 0
      | Some m \<Rightarrow>
          (case timestamp_sub max_date m of
             Inl e \<Rightarrow> Inl e
           | Inr td \<Rightarrow> Inr (days td)))"

definition agg_group ::
  "(rat list \<Rightarrow> rat) \<Rightarrow> int \<Rightarrow> string \<times> OrderRow list \<Rightarrow> error + RFMMetrics" where
  "agg_group psum max_date kg =
     (case recency_days max_date (map order_purchase_timestamp (snd kg)) of
        Inl e \<Rightarrow> Inl e
      | Inr rec \<Rightarrow>
          Inr \<lparr> customer = fst kg,
                recency = rec,
                frequency = nunique (map order_id (snd kg)),
                monetary = psum (map price (snd kg)) \<rparr>)"

fun collect :: "('e + 'a) list \<Rightarrow> 'e + 'a list" where
  "collect [] = Inr []"
| "collect (Inl e # rs) = Inl e"
| "collect (Inr x # rs) = (case collect rs of Inl e \<Rightarrow> Inl e | Inr xs \<Rightarrow> Inr (x # xs))"

definition rfm_metrics ::
  "(rat list \<Rightarrow> rat) \<Rightarrow> int \<Rightarrow> OrderRow list \<Rightarrow> error + RFMMetrics list" where
  "rfm_metrics psum max_date df =
     collect (map (agg_group psum max_date) (groupby customer_unique_id df))"

subsection \<open>Quantile cut\<close>

text \<open>
  \<open>numpy.linspace(0, 1, q + 1)\<close>: the multiples of the rounded step \<open>1 / q\<close>, each
  rounded, and the end point 1. \<open>Series.quantile\<close> hands the quantiles to
  \<open>numpy.percentile\<close> as percentages, which divides them by 100 again
  (\<open>percentile_roundtrip\<close>).
\<close>

definition linspace01 :: "nat \<Rightarrow> rat list" where
  "linspace01 q =
     map (\<lambda>k. if k = q then 1 else fl (of_nat k * fl (1 / of_nat q))) [0..<q + 1]"

definition percentile_roundtrip :: "rat \<Rightarrow> rat" where
  "percentile_roundtrip p = fl (fl (p * 100) / 100)"

definition quantiles :: "nat \<Rightarrow> rat list" where
  "quantiles q = map percentile_roundtrip (linspace01 q)"

text \<open>
  numpy's \<open>_lerp a b t\<close>: the interpolation between \<open>a\<close> and \<open>b\<close> with the weight \<open>t\<close> of
  \<open>b\<close>, worked from \<open>a\<close> for a weight under one half and from \<open>b\<close> otherwise.
\<close>

definition lerp :: "rat \<Rightarrow> rat \<Rightarrow> rat \<Rightarrow> rat" where
  "lerp a b t =
     (let d = fl (b - a)
      in if t < 1 / 2 then fl (a + fl (d * t)) else fl (b - fl (d * fl (1 - t))))"

text \<open>
  \<open>numpy.quantile\<close> with linear interpolation, on the sorted values. \<open>h\<close> is the virtual
  index, \<open>lo\<close> the index below it; the weight of the value above is the rest of \<open>h\<close>. At
  or above the last index the result is the largest value.
\<close>

definition quantile :: "rat list \<Rightarrow> rat \<Rightarrow> rat" where
  "quantile x p =
     (let s = sort x;
          n = length s;
          m = fl (of_nat (n - 1));
          h = fl (m * p)
      in if m \<le> h then s ! (n - 1)
         else (let lo = nat \<lfloor>h\<rfloor>
               in lerp (s ! lo) (s ! (lo + 1)) (fl (h - of_nat lo))))"

text \<open>
  \<open>pandas.qcut(x, q, labels)\<close>: the bin edges are the quantiles of \<open>x\<close>; the bins are
  closed on the right and the first one also holds the smallest value. Duplicate edges
  raise \<open>ValueError\<close>.
\<close>

definition bin_edges :: "rat list \<Rightarrow> nat \<Rightarrow> rat list" where
  "bin_edges x q = map (quantile x) (quantiles q)"

definition searchsorted_left :: "rat list \<Rightarrow> rat \<Rightarrow> nat" where
  "searchsorted_left bins v = length (filter (\<lambda>b. b < v) bins)"

definition cut_id :: "rat list \<Rightarrow> rat \<Rightarrow> nat" where
  "cut_id bins v = (if v = hd bins then 1 else searchsorted_left bins v)"

definition take_label :: "nat list \<Rightarrow> nat \<Rightarrow> nat \<Rightarrow> nat option" where
  "take_label labels nbins i =
     (if i = 0 \<or> i = nbins \<or> length labels < i then None else Some (labels ! (i - 1)))"

definition bins_to_cuts :: "rat list \<Rightarrow> rat list \<Rightarrow> nat list \<Rightarrow> error + nat option list" where
  "bins_to_cuts x bins labels =
     (if \<not> distinct bins \<and> length bins \<noteq> 2 then Inl BinEdgesNotUnique
      else if \<not> distinct labels then Inl LabelsNotUnique
      else if length labels \<noteq> length bins - 1 then Inl BinLabelsMismatch
      else Inr (map (\<lambda>v. take_label labels (length bins) (cut_id bins v)) x))"

definition qcut :: "rat list \<Rightarrow> nat \<Rightarrow> nat list \<Rightarrow> error + nat option list" where
  "qcut x q labels =
     (if x = [] then Inl BinEdgesNotUnique
      else bins_to_cuts x (bin_edges x q) labels)"

text \<open>
  \<open>Series.rank(method="first")\<close>: ascending ranks from 1, equal values ranked in the
  order they stand in the series.
\<close>

definition rank_first :: "'a::linorder list \<Rightarrow> nat list" where
  "rank_first xs =
     map (\<lambda>i. length (filter (\<lambda>y. y < xs ! i) xs)
              + length (filter (\<lambda>y. y = xs ! i) (take i xs)) + 1)
         [0..<length xs]"

subsection \<open>Score strings and the segment map\<close>

fun str_nat :: "nat \<Rightarrow> string" where
  "str_nat n =
     (if n < 10 then [char_of (48 + n)]
      else str_nat (n div 10) @ [char_of (48 + n mod 10)])"

definition astype_str :: "nat option \<Rightarrow> string" where
  "astype_str v = (case v of None \<Rightarrow> ''nan'' | Some n \<Rightarrow> str_nat n)"

text \<open>
  The regular expressions of \<open>seg_map\<close> use literals, character ranges, concatenation
  and alternation. \<open>rmatch r s\<close> lists, in the order a backtracking matcher tries them,
  the rests of \<open>s\<close> after a match of \<open>r\<close> at its start.
\<close>

datatype regex = Lit char | Range char char | Seq regex regex | Alt regex regex

fun rmatch :: "regex \<Rightarrow> string \<Rightarrow> string list" where
  "rmatch (Lit c) s = (case s of [] \<Rightarrow> [] | x # xs \<Rightarrow> if x = c then [xs] else [])"
| "rmatch (Range a b) s =
     (case s of [] \<Rightarrow> [] | x # xs \<Rightarrow> if a \<le> x \<and> x \<le> b then [xs] else [])"
| "rmatch (Seq r1 r2) s = concat (map (rmatch r2) (rmatch r1 s))"
| "rmatch (Alt r1 r2) s = rmatch r1 s @ rmatch r2 s"

definition re_search :: "regex \<Rightarrow> string \<Rightarrow> bool" where
  "re_search r s = list_ex (\<lambda>i. rmatch r (drop i s) \<noteq> []) [0..<length s + 1]"

text \<open>
  \<open>re.sub\<close>: the leftmost matches, none overlapping, are each replaced. \<open>skip\<close> counts
  the characters of the current match that are still to be dropped; every expression of
  the fragment matches at least one character.
\<close>

fun re_sub_from :: "nat \<Rightarrow> regex \<Rightarrow> string \<Rightarrow> string \<Rightarrow> string" where
  "re_sub_from skip r v [] = []"
| "re_sub_from skip r v (c # cs) =
     (if 0 < skip then re_sub_from (skip - 1) r v cs
      else (case rmatch r (c # cs) of
              [] \<Rightarrow> c # re_sub_from 0 r v cs
            | rest # _ \<Rightarrow> v @ re_sub_from (length cs - length rest) r v cs))"

definition re_sub :: "regex \<Rightarrow> string \<Rightarrow> string \<Rightarrow> string" where
  "re_sub r v s = re_sub_from 0 r v s"

text \<open>
  \<open>Series.replace(seg_map, regex=True)\<close> on one cell: for each pattern in dictionary
  order, a cell whose original value the pattern is found in has the matches in its
  current value substituted. A cell no pattern is found in keeps its value.
\<close>

definition replace_regex :: "(regex \<times> string) list \<Rightarrow> string \<Rightarrow> string" where
  "replace_regex m s =
     fold (\<lambda>(rx, v) cur. if re_search rx s then re_sub rx v cur else cur) m s"

definition seg_map :: "(regex \<times> string) list" where
  "seg_map =
     [(Seq (Range CHR ''4'' CHR ''5'') (Range CHR ''4'' CHR ''5''), ''Champions''),
      (Seq (Lit CHR ''3'') (Range CHR ''4'' CHR ''5''), ''Loyal customers''),
      (Seq (Range CHR ''3'' CHR ''5'') (Range CHR ''1'' CHR ''3''), ''Potential loyalist''),
      (Seq (Range CHR ''1'' CHR ''2'') (Range CHR ''4'' CHR ''5''), ''At risk''),
      (Seq (Lit CHR ''2'') (Range CHR ''2'' CHR ''3''), ''Hibernating''),
      (Alt (Seq (Lit CHR ''1'') (Range CHR ''1'' CHR ''3''))
           (Seq (Lit CHR ''2'') (Lit CHR ''1'')), ''Lost'')]"

subsection \<open>\<open>create_rfm_df\<close>\<close>

definition rf_code :: "nat option \<Rightarrow> nat option \<Rightarrow> string" where
  "rf_code r f = astype_str r @ astype_str f"

definition add_scores :: "RFMMetrics \<Rightarrow> nat option \<times> nat option \<Rightarrow> CustomerRFM" where
  "add_scores m rf =
     \<lparr> customer = customer m, recency = recency m, frequency = frequency m,
       monetary = monetary m,
       r_score = fst rf, f_score = snd rf,
       rf_score = rf_code (fst rf) (snd rf),
       customers_type = replace_regex seg_map (rf_code (fst rf) (snd rf)) \<rparr>"

definition revenue_per_type :: "(rat list \<Rightarrow> rat) \<Rightarrow> CustomerRFM list \<Rightarrow> SegmentRevenue list" where
  "revenue_per_type psum rfm_df =
     map (\<lambda>kg. \<lparr> seg_customers_type = fst kg,
                 seg_monetary = psum (map monetary (snd kg)) \<rparr>)
         (groupby customers_type rfm_df)"

text \<open>
  Lines 77 to 98 on the aggregated frame: the two quantile cuts (the frequency column
  is ranked first), the score code and the segment of every customer, and the revenue
  per segment.
\<close>

definition score_rows ::
  "(rat list \<Rightarrow> rat) \<Rightarrow> RFMMetrics list \<Rightarrow> error + CustomerRFM list \<times> SegmentRevenue list" where
  "score_rows psum rfm_df =
     (case qcut (map (\<lambda>r. of_int (recency r)) rfm_df) 5 [5, 4, 3, 2, 1] of
        Inl e \<Rightarrow> Inl e
      | Inr r_scores \<Rightarrow>
         (case qcut (map of_nat (rank_first (map frequency rfm_df))) 5 [1, 2, 3, 4, 5] of
            Inl e \<Rightarrow> Inl e
          | Inr f_scores \<Rightarrow>
             (let scored = map2 add_scores rfm_df (zip r_scores f_scores)
              in Inr (scored, revenue_per_type psum scored))))"

text \<open>
  Line 54, on the timestamp column: the latest timestamp plus one day; the missing
  timestamp (\<open>None\<close>) for an empty column.
\<close>

definition latest_plus_day :: "int list \<Rightarrow> error + int option" where
  "latest_plus_day ts =
     (case series_max ts of
        None \<Rightarrow> Inr None
      | Some latest \<Rightarrow>
          (case timestamp_add latest (Timedelta_days 1) of
             Inl e \<Rightarrow> Inl e
           | Inr d \<Rightarrow> Inr (Some d)))"

definition max_date :: "OrderRow list \<Rightarrow> error + int option" where
  "max_date df = latest_plus_day (map order_purchase_timestamp df)"

text \<open>
  On an empty frame line 54 yields the missing timestamp and the grouped frame is
  empty; the quantiles of an empty column are all missing, which \<open>qcut\<close> reports as
  duplicate bin edges.
\<close>

definition create_rfm_df ::
  "(rat list \<Rightarrow> rat) \<Rightarrow> OrderRow list \<Rightarrow> error + CustomerRFM list \<times> SegmentRevenue list" where
  "create_rfm_df psum df =
     (case max_date df of
        Inl e \<Rightarrow> Inl e
      | Inr None \<Rightarrow> score_rows psum []
      | Inr (Some d) \<Rightarrow>
          (case rfm_metrics psum d df of
             Inl e \<Rightarrow> Inl e
           | Inr rfm_df \<Rightarrow> score_rows psum rfm_df))"

subsection \<open>The segment table of the specification\<close>

text \<open>
  \<open>classify r f\<close> is what lines 83 and 95 compute for one customer with the scores
  \<open>r\<close> and \<open>f\<close>; \<open>patterns_found\<close> lists the labels of the patterns of \<open>seg_map\<close> that
  are found in a code. \<open>spec_table\<close> is the table of the specification (section 4.1,
  step 6), row by row, and \<open>spec_labels r f\<close> the labels of its rows that hold of a pair.
\<close>

definition classify :: "nat \<Rightarrow> nat \<Rightarrow> string" where
  "classify r f = replace_regex seg_map (rf_code (Some r) (Some f))"

definition patterns_found :: "string \<Rightarrow> string list" where
  "patterns_found s = map snd (filter (\<lambda>p. re_search (fst p) s) seg_map)"

definition spec_table :: "((nat \<Rightarrow> nat \<Rightarrow> bool) \<times> string) list" where
  "spec_table =
     [(\<lambda>r f. r \<in> {4, 5} \<and> f \<in> {4, 5}, ''Champions''),
      (\<lambda>r f. r = 3 \<and> f \<in> {4, 5}, ''Loyal customers''),
      (\<lambda>r f. r \<in> {3, 4, 5} \<and> f \<in> {1, 2, 3}, ''Potential loyalist''),
      (\<lambda>r f. r \<in> {1, 2} \<and> f \<in> {4, 5}, ''At risk''),
      (\<lambda>r f. r = 2 \<and> f \<in> {2, 3}, ''Hibernating''),
      (\<lambda>r f. r = 1 \<and> f \<in> {1, 2, 3} \<or> rf_code (Some r) (Some f) = ''21'', ''Lost'')]"

definition spec_labels :: "nat \<Rightarrow> nat \<Rightarrow> string list" where
  "spec_labels r f = map snd (filter (\<lambda>row. fst row r f) spec_table)"

text \<open>The six segment labels of the specification.\<close>

definition segment_labels :: "string list" where
  "segment_labels =
     [''Champions'', ''Loyal customers'', ''Potential loyalist'', ''At risk'', ''Hibernating'',
      ''Lost'']"

subsection \<open>Specification of the aggregation and of the buckets\<close>

text \<open>
  \<open>is_aggregation psum df ref t\<close> states, in the words of the specification (section
  4.1, step 2), that \<open>t\<close> holds one row per distinct customer of \<open>df\<close> with the three
  metrics of that customer's rows, \<open>ref\<close> being the reference date; the sum of the prices
  is the one \<open>psum\<close> computes of the customer's prices in frame order.
\<close>

definition is_aggregation ::
  "(rat list \<Rightarrow> rat) \<Rightarrow> OrderRow list \<Rightarrow> int \<Rightarrow> 'a RFMMetrics_scheme list \<Rightarrow> bool" where
  "is_aggregation psum df ref t \<longleftrightarrow>
     distinct (map customer t) \<and>
     set (map customer t) = customer_unique_id ` set df \<and>
     (\<forall>c\<in>set t.
        recency c = days (ref - Max (order_purchase_timestamp ` {r \<in> set df. customer_unique_id r = customer c})) \<and>
        frequency c = card (order_id ` {r \<in> set df. customer_unique_id r = customer c}) \<and>
        monetary c = psum (map price (filter (\<lambda>r. customer_unique_id r = customer c) df)))"

text \<open>
  \<open>exact_groups psum key val rows\<close>: no sum of a group of \<open>rows\<close> is rounded.
\<close>

definition exact_groups :: "(rat list \<Rightarrow> rat) \<Rightarrow> ('r \<Rightarrow> string) \<Rightarrow> ('r \<Rightarrow> rat) \<Rightarrow> 'r list \<Rightarrow> bool" where
  "exact_groups psum key val rows =
     list_all (\<lambda>kg. psum (map val (snd kg)) = sum_list (map val (snd kg))) (groupby key rows)"


text \<open>
  \<open>bucket_of n i\<close> is the bin index that the quantile cut gives the \<open>i\<close>-th smallest of
  \<open>n\<close> pairwise distinct values (\<open>cut_id_sorted\<close> below), and \<open>bucket_size b scores\<close> the
  number of customers whose score is \<open>b\<close>. A \<open>whole\<close> number is a natural number up to
  \<open>2\<^sup>5\<^sup>0\<close>. \<open>ties_together xs scores\<close> holds of an
  assignment of scores that gives equal values equal scores and never gives the larger
  of two values the higher score.
\<close>

definition whole :: "rat \<Rightarrow> bool" where
  "whole v \<longleftrightarrow> v = of_int \<lfloor>v\<rfloor> \<and> 0 \<le> v \<and> v \<le> 2 ^ 50"

definition bucket_of :: "nat \<Rightarrow> nat \<Rightarrow> nat" where
  "bucket_of n i =
     (if i = 0 then 1 else length (filter (\<lambda>k. (n - 1) * k < 5 * i) [0..<6]))"

definition bucket_size :: "nat \<Rightarrow> nat option list \<Rightarrow> nat" where
  "bucket_size b scores = length (filter (\<lambda>s. s = Some b) scores)"

definition ties_together :: "int list \<Rightarrow> nat option list \<Rightarrow> bool" where
  "ties_together xs scores =
     (length xs = length scores \<and>
      list_all (\<lambda>p. list_all (\<lambda>q. (fst p = fst q \<longrightarrow> snd p = snd q) \<and>
                                   (fst p < fst q \<longrightarrow> snd q \<le> snd p))
                              (zip xs (map the scores)))
               (zip xs (map the scores)))"

subsection \<open>Test data\<close>

definition order_on_day :: "string \<Rightarrow> string \<Rightarrow> int \<Rightarrow> rat \<Rightarrow> OrderRow" where
  "order_on_day c oid d p =
     \<lparr> customer_unique_id = c, order_id = oid,
       order_purchase_timestamp = Timedelta_days d, price = p \<rparr>"

definition scored :: "string \<Rightarrow> int \<Rightarrow> nat \<Rightarrow> rat \<Rightarrow> nat \<Rightarrow> nat \<Rightarrow> string \<Rightarrow> string \<Rightarrow> CustomerRFM" where
  "scored c r f m rs fs code t =
     \<lparr> customer = c, recency = r, frequency = f, monetary = m,
       r_score = Some rs, f_score = Some fs, rf_score = code, customers_type = t \<rparr>"

definition segment :: "string \<Rightarrow> rat \<Rightarrow> SegmentRevenue" where
  "segment t m = \<lparr> seg_customers_type = t, seg_monetary = m \<rparr>"

definition metrics :: "string \<Rightarrow> int \<Rightarrow> nat \<Rightarrow> rat \<Rightarrow> RFMMetrics" where
  "metrics c r f m = \<lparr> customer = c, recency = r, frequency = f, monetary = m \<rparr>"

definition five_customers :: "OrderRow list" where
  "five_customers =
     [order_on_day ''c'' ''o3'' 3 30, order_on_day ''a'' ''o1'' 1 10,
      order_on_day ''b'' ''o2'' 2 20, order_on_day ''d'' ''o4'' 4 40,
      order_on_day ''e'' ''o5'' 5 5, order_on_day ''e'' ''o5'' 5 7,
      order_on_day ''e'' ''o6'' 3 1]"

definition five_metrics :: "RFMMetrics list" where
  "five_metrics =
     [metrics ''a'' 5 1 10, metrics ''b'' 4 1 20, metrics ''c'' 3 1 30, metrics ''d'' 2 1 40,
      metrics ''e'' 1 2 13]"

definition five_rfm :: "CustomerRFM list" where
  "five_rfm =
     [scored ''a'' 5 1 10 1 1 ''11'' ''Lost'',
      scored ''b'' 4 1 20 2 2 ''22'' ''Hibernating'',
      scored ''c'' 3 1 30 3 3 ''33'' ''Potential loyalist'',
      scored ''d'' 2 1 40 4 4 ''44'' ''Champions'',
      scored ''e'' 1 2 13 5 5 ''55'' ''Champions'']"

definition five_seg :: "SegmentRevenue list" where
  "five_seg =
     [segment ''Champions'' 53, segment ''Hibernating'' 20, segment ''Lost'' 10,
      segment ''Potential loyalist'' 30]"

text \<open>
  Customer \<open>a\<close> pays \<open>2\<^sup>5\<^sup>3\<close> and 1; the sum \<open>2\<^sup>5\<^sup>3 + 1\<close> is not a float64.
\<close>

definition rounding_customers :: "OrderRow list" where
  "rounding_customers =
     [order_on_day ''a'' ''o1'' 1 9007199254740992, order_on_day ''a'' ''o2'' 1 1,
      order_on_day ''b'' ''o3'' 2 1, order_on_day ''c'' ''o4'' 3 1,
      order_on_day ''d'' ''o5'' 4 1, order_on_day ''e'' ''o6'' 5 1]"

definition rounding_rfm :: "CustomerRFM list" where
  "rounding_rfm =
     [scored ''a'' 5 2 9007199254740992 1 5 ''15'' ''At risk'',
      scored ''b'' 4 1 1 2 1 ''21'' ''Lost'',
      scored ''c'' 3 1 1 3 2 ''32'' ''Potential loyalist'',
      scored ''d'' 2 1 1 4 3 ''43'' ''Potential loyalist'',
      scored ''e'' 1 1 1 5 4 ''54'' ''Champions'']"

definition rounding_seg :: "SegmentRevenue list" where
  "rounding_seg =
     [segment ''At risk'' 9007199254740992, segment ''Champions'' 1, segment ''Lost'' 1,
      segment ''Potential loyalist'' 2]"

text \<open>Seven customers with the recencies 1, 2, 3, 4, 4, 5 and 6.\<close>

definition seven_customers :: "OrderRow list" where
  "seven_customers =
     [order_on_day ''a'' ''o1'' 6 10, order_on_day ''b'' ''o2'' 5 10,
      order_on_day ''c'' ''o3'' 4 10, order_on_day ''d'' ''o4'' 3 10,
      order_on_day ''e'' ''o5'' 3 10, order_on_day ''f'' ''o6'' 2 10,
      order_on_day ''g'' ''o7'' 1 10]"

definition seven_rfm :: "CustomerRFM list" where
  "seven_rfm =
     [scored ''a'' 1 1 10 5 1 ''51'' ''Potential loyalist'',
      scored ''b'' 2 1 10 5 1 ''51'' ''Potential loyalist'',
      scored ''c'' 3 1 10 4 2 ''42'' ''Potential loyalist'',
      scored ''d'' 4 1 10 3 3 ''33'' ''Potential loyalist'',
      scored ''e'' 4 1 10 3 4 ''34'' ''Loyal customers'',
      scored ''f'' 5 1 10 1 5 ''15'' ''At risk'',
      scored ''g'' 6 1 10 1 5 ''15'' ''At risk'']"

definition seven_seg :: "SegmentRevenue list" where
  "seven_seg =
     [segment ''At risk'' 20, segment ''Loyal customers'' 10,
      segment ''Potential loyalist'' 40]"

definition seven_alt :: "nat option list" where
  "seven_alt = [Some 5, Some 4, Some 3, Some 2, Some 2, Some 1, Some 1]"

definition four_customers :: "OrderRow list" where
  "four_customers =
     [order_on_day ''a'' ''o1'' 1 10, order_on_day ''b'' ''o2'' 2 20,
      order_on_day ''c'' ''o3'' 3 30, order_on_day ''d'' ''o4'' 4 40]"

definition four_rfm :: "CustomerRFM list" where
  "four_rfm =
     [scored ''a'' 4 1 10 1 1 ''11'' ''Lost'',
      scored ''b'' 3 1 20 2 2 ''22'' ''Hibernating'',
      scored ''c'' 2 1 30 4 4 ''44'' ''Champions'',
      scored ''d'' 1 1 40 5 5 ''55'' ''Champions'']"

definition four_seg :: "SegmentRevenue list" where
  "four_seg = [segment ''Champions'' 70, segment ''Hibernating'' 20, segment ''Lost'' 10]"

definition same_day_customers :: "OrderRow list" where
  "same_day_customers =
     [order_on_day ''a'' ''o1'' 1 10, order_on_day ''b'' ''o2'' 1 20,
      order_on_day ''c'' ''o3'' 1 30, order_on_day ''d'' ''o4'' 1 40,
      order_on_day ''e'' ''o5'' 1 50]"

definition single_customer :: "OrderRow list" where
  "single_customer = [order_on_day ''a'' ''o1'' 1 10, order_on_day ''a'' ''o2'' 3 5]"

subsection \<open>The store model\<close>

text \<open>
  The store model of \<open>create_rfm_df\<close>. The heap is the list of the data frames that
  exist, a reference is a position in it. Every frame, the caller's table included, is
  a \<open>Table\<close> of an index and named columns. \<open>alloc\<close> appends a new frame; the in-place
  operations of lines 66 to 95 (\<open>rename(..., inplace=True)\<close>, \<open>rfm_df[name] = column\<close>)
  overwrite the frame at the reference they are given. Reading a missing column raises
  \<open>KeyError\<close>.
\<close>

datatype column =
  IntCol "int list" | NatCol "nat list" | RatCol "rat list"
  | ScoreCol "nat option list" | StrCol "string list"

datatype frame = Table column "(string \<times> column) list"

type_synonym heap = "frame list"

datatype raised = Raised error | KeyError | TypeError

definition alloc :: "frame \<Rightarrow> heap \<Rightarrow> nat \<times> heap" where
  "alloc f h = (length h, h @ [f])"

fun setitem :: "string \<Rightarrow> column \<Rightarrow> (string \<times> column) list \<Rightarrow> (string \<times> column) list" where
  "setitem name col [] = [(name, col)]"
| "setitem name col (p # ps) =
     (if fst p = name then (name, col) # ps else p # setitem name col ps)"

definition rename_columns ::
  "(string \<times> string) list \<Rightarrow> (string \<times> column) list \<Rightarrow> (string \<times> column) list" where
  "rename_columns m cs =
     map (\<lambda>p. (case map_of m (fst p) of Some n \<Rightarrow> n | None \<Rightarrow> fst p, snd p)) cs"

definition rename_inplace :: "nat \<Rightarrow> (string \<times> string) list \<Rightarrow> heap \<Rightarrow> heap" where
  "rename_inplace r m h =
     (case h ! r of Table ix cs \<Rightarrow> h[r := Table ix (rename_columns m cs)])"

definition setitem_inplace :: "nat \<Rightarrow> string \<Rightarrow> column \<Rightarrow> heap \<Rightarrow> heap" where
  "setitem_inplace r name col h =
     (case h ! r of Table ix cs \<Rightarrow> h[r := Table ix (setitem name col cs)])"

definition getitem :: "nat \<Rightarrow> string \<Rightarrow> heap \<Rightarrow> raised + column" where
  "getitem r name h =
     (case h ! r of
        Table ix cs \<Rightarrow> (case map_of cs name of Some c \<Rightarrow> Inr c | None \<Rightarrow> Inl KeyError))"

definition get_int :: "nat \<Rightarrow> string \<Rightarrow> heap \<Rightarrow> raised + int list" where
  "get_int r name h =
     (case getitem r name h of Inl e \<Rightarrow> Inl e | Inr (IntCol xs) \<Rightarrow> Inr xs | Inr _ \<Rightarrow> Inl TypeError)"

definition get_nat :: "nat \<Rightarrow> string \<Rightarrow> heap \<Rightarrow> raised + nat list" where
  "get_nat r name h =
     (case getitem r name h of Inl e \<Rightarrow> Inl e | Inr (NatCol xs) \<Rightarrow> Inr xs | Inr _ \<Rightarrow> Inl TypeError)"

definition get_rat :: "nat \<Rightarrow> string \<Rightarrow> heap \<Rightarrow> raised + rat list" where
  "get_rat r name h =
     (case getitem r name h of Inl e \<Rightarrow> Inl e | Inr (RatCol xs) \<Rightarrow> Inr xs | Inr _ \<Rightarrow> Inl TypeError)"

definition get_score :: "nat \<Rightarrow> string \<Rightarrow> heap \<Rightarrow> raised + nat option list" where
  "get_score r name h =
     (case getitem r name h of Inl e \<Rightarrow> Inl e | Inr (ScoreCol xs) \<Rightarrow> Inr xs | Inr _ \<Rightarrow> Inl TypeError)"

definition get_str :: "nat \<Rightarrow> string \<Rightarrow> heap \<Rightarrow> raised + string list" where
  "get_str r name h =
     (case getitem r name h of Inl e \<Rightarrow> Inl e | Inr (StrCol xs) \<Rightarrow> Inr xs | Inr _ \<Rightarrow> Inl TypeError)"

text \<open>
  The rows of the caller's table that lines 57 to 63 read: the group key and the three
  aggregated columns. The columns of a data frame have one length.
\<close>

definition order_rows :: "string list \<Rightarrow> string list \<Rightarrow> int list \<Rightarrow> rat list \<Rightarrow> OrderRow list" where
  "order_rows cs os ts ps =
     map (\<lambda>q. \<lparr> customer_unique_id = fst q, order_id = fst (snd q),
                order_purchase_timestamp = fst (snd (snd q)), price = snd (snd (snd q)) \<rparr>)
         (zip cs (zip os (zip ts ps)))"

definition read_orders :: "nat \<Rightarrow> heap \<Rightarrow> raised + OrderRow list" where
  "read_orders df h =
     (case get_int df ''order_purchase_timestamp'' h of
        Inl e \<Rightarrow> Inl e
      | Inr ts \<Rightarrow>
     (case get_str df ''customer_unique_id'' h of
        Inl e \<Rightarrow> Inl e
      | Inr cs \<Rightarrow>
     (case get_str df ''order_id'' h of
        Inl e \<Rightarrow> Inl e
      | Inr os \<Rightarrow>
     (case get_rat df ''price'' h of
        Inl e \<Rightarrow> Inl e
      | Inr ps \<Rightarrow>
          if length cs = length ts \<and> length os = length ts \<and> length ps = length ts
          then Inr (order_rows cs os ts ps) else Inl TypeError))))"

text \<open>
  Lines 54 to 73 (\<open>aggregate_heap\<close>: line 54 reads the timestamp column of the argument,
  the grouped frame is a new object, its columns are renamed in place), lines 77 to 95
  (\<open>score_heap\<close>: four column assignments to \<open>rfm_df\<close>) and line 98 (\<open>revenue_heap\<close>: a
  second new object).
\<close>

definition aggregate_heap :: "(rat list \<Rightarrow> rat) \<Rightarrow> nat \<Rightarrow> heap \<Rightarrow> (raised + nat) \<times> heap" where
  "aggregate_heap psum df h =
     (case get_int df ''order_purchase_timestamp'' h of
        Inl e \<Rightarrow> (Inl e, h)
      | Inr ts \<Rightarrow>
     (case latest_plus_day ts of
        Inl e \<Rightarrow> (Inl (Raised e), h)
      | Inr ref \<Rightarrow>
     (case read_orders df h of
        Inl e \<Rightarrow> (Inl e, h)
      | Inr rows \<Rightarrow>
     (case (case ref of None \<Rightarrow> Inr [] | Some d \<Rightarrow> rfm_metrics psum d rows) of
        Inl e \<Rightarrow> (Inl (Raised e), h)
      | Inr t \<Rightarrow>
         (let a = alloc (Table (StrCol (map customer t))
                    [(''order_purchase_timestamp'', IntCol (map recency t)),
                     (''order_id'', NatCol (map frequency t)),
                     (''price'', RatCol (map monetary t))]) h
          in (Inr (fst a),
              rename_inplace (fst a)
                [(''order_purchase_timestamp'', ''recency''), (''order_id'', ''frequency''),
                 (''price'', ''monetary'')] (snd a)))))))"

definition score_heap :: "nat \<Rightarrow> heap \<Rightarrow> raised option \<times> heap" where
  "score_heap rfm_df h =
     (case get_int rfm_df ''recency'' h of
        Inl e \<Rightarrow> (Some e, h)
      | Inr rec \<Rightarrow>
     (case qcut (map of_int rec) 5 [5, 4, 3, 2, 1] of
        Inl e \<Rightarrow> (Some (Raised e), h)
      | Inr r_scores \<Rightarrow>
     (let h1 = setitem_inplace rfm_df ''r_score'' (ScoreCol r_scores) h in
      case get_nat rfm_df ''frequency'' h1 of
        Inl e \<Rightarrow> (Some e, h1)
      | Inr freq \<Rightarrow>
     (case qcut (map of_nat (rank_first freq)) 5 [1, 2, 3, 4, 5] of
        Inl e \<Rightarrow> (Some (Raised e), h1)
      | Inr f_scores \<Rightarrow>
     (let h2 = setitem_inplace rfm_df ''f_score'' (ScoreCol f_scores) h1 in
      case get_score rfm_df ''r_score'' h2 of
        Inl e \<Rightarrow> (Some e, h2)
      | Inr rs \<Rightarrow>
     (case get_score rfm_df ''f_score'' h2 of
        Inl e \<Rightarrow> (Some e, h2)
      | Inr fs \<Rightarrow>
     (let h3 = setitem_inplace rfm_df ''rf_score'' (StrCol (map2 rf_code rs fs)) h2 in
      case get_str rfm_df ''rf_score'' h3 of
        Inl e \<Rightarrow> (Some e, h3)
      | Inr codes \<Rightarrow>
          (None, setitem_inplace rfm_df ''customers_type''
                   (StrCol (map (replace_regex seg_map) codes)) h3))))))))"

definition groupby_sum ::
  "(rat list \<Rightarrow> rat) \<Rightarrow> string list \<Rightarrow> rat list \<Rightarrow> string list \<times> rat list" where
  "groupby_sum psum keys vals =
     (let ks = sort (remdups keys)
      in (ks, map (\<lambda>k. psum (map snd (filter (\<lambda>p. fst p = k) (zip keys vals)))) ks))"

definition revenue_heap :: "(rat list \<Rightarrow> rat) \<Rightarrow> nat \<Rightarrow> heap \<Rightarrow> (raised + nat) \<times> heap" where
  "revenue_heap psum rfm_df h =
     (case get_str rfm_df ''customers_type'' h of
        Inl e \<Rightarrow> (Inl e, h)
      | Inr types \<Rightarrow>
     (case get_rat rfm_df ''monetary'' h of
        Inl e \<Rightarrow> (Inl e, h)
      | Inr mon \<Rightarrow>
         (let g = groupby_sum psum types mon;
              a = alloc (Table (NatCol [0..<length (fst g)])
                     [(''customers_type'', StrCol (fst g)), (''monetary'', RatCol (snd g))]) h
          in (Inr (fst a), snd a))))"

definition create_rfm_df_heap ::
  "(rat list \<Rightarrow> rat) \<Rightarrow> nat \<Rightarrow> heap \<Rightarrow> (raised + nat \<times> nat) \<times> heap" where
  "create_rfm_df_heap psum df h =
     (if length h \<le> df then (Inl TypeError, h)
      else (let a = aggregate_heap psum df h
            in case fst a of
                 Inl e \<Rightarrow> (Inl e, snd a)
               | Inr rfm_df \<Rightarrow>
                  (let s = score_heap rfm_df (snd a)
                   in case fst s of
                        Some e \<Rightarrow> (Inl e, snd s)
                      | None \<Rightarrow>
                         (let r = revenue_heap psum rfm_df (snd s)
                          in case fst r of
                               Inl e \<Rightarrow> (Inl e, snd r)
                             | Inr revenue \<Rightarrow> (Inr (rfm_df, revenue), snd r)))))"

text \<open>
  A variant of the function that, before it returns, renames the price column of its
  argument in place (a \<open>df.rename(columns={"price": "monetary"}, inplace=True)\<close> as its
  last statement); the source has no such statement.
\<close>

definition create_rfm_df_renaming ::
  "(rat list \<Rightarrow> rat) \<Rightarrow> nat \<Rightarrow> heap \<Rightarrow> (raised + nat \<times> nat) \<times> heap" where
  "create_rfm_df_renaming psum df h =
     (if length h \<le> df then (Inl TypeError, h)
      else (let r = create_rfm_df_heap psum df h
            in (fst r, rename_inplace df [(''price'', ''monetary'')] (snd r))))"

text \<open>
  The frames that hold a list of rows of the value model, column by column.
\<close>

definition orders_frame :: "OrderRow list \<Rightarrow> frame" where
  "orders_frame rows =
     Table (NatCol [0..<length rows])
       [(''order_id'', StrCol (map order_id rows)),
        (''customer_unique_id'', StrCol (map customer_unique_id rows)),
        (''order_purchase_timestamp'', IntCol (map order_purchase_timestamp rows)),
        (''price'', RatCol (map price rows))]"

definition metrics_frame :: "RFMMetrics list \<Rightarrow> frame" where
  "metrics_frame t =
     Table (StrCol (map customer t))
       [(''recency'', IntCol (map recency t)), (''frequency'', NatCol (map frequency t)),
        (''monetary'', RatCol (map monetary t))]"

definition rfm_frame :: "CustomerRFM list \<Rightarrow> frame" where
  "rfm_frame rfm =
     Table (StrCol (map customer rfm))
       [(''recency'', IntCol (map recency rfm)), (''frequency'', NatCol (map frequency rfm)),
        (''monetary'', RatCol (map monetary rfm)),
        (''r_score'', ScoreCol (map r_score rfm)), (''f_score'', ScoreCol (map f_score rfm)),
        (''rf_score'', StrCol (map rf_score rfm)),
        (''customers_type'', StrCol (map customers_type rfm))]"

definition revenue_frame :: "SegmentRevenue list \<Rightarrow> frame" where
  "revenue_frame seg =
     Table (NatCol [0..<length seg])
       [(''customers_type'', StrCol (map seg_customers_type seg)),
        (''monetary'', RatCol (map seg_monetary seg))]"

section \<open>Float64 rounding\<close>

lemma bitlen_pos: "1 \<le> n \<Longrightarrow> 1 \<le> bitlen n"
  using bitlen_ge_iff_power [of 1 n] by simp

lemma floor_log2_ge1:
  assumes "1 \<le> y"
  shows "2 powi (floor_log2 y) \<le> y" and "y < 2 powi (floor_log2 y + 1)"
proof -
  define n where "n = \<lfloor>y\<rfloor>"
  have n1: "1 \<le> n" using assms unfolding n_def by simp
  have b: "2 ^ nat (bitlen n - 1) \<le> n" "n < 2 ^ nat (bitlen n)"
    using bitlen_bounds [of n] n1 by auto
  have B1: "1 \<le> bitlen n" using n1 by (rule bitlen_pos)
  have L: "floor_log2 y = bitlen n - 1" using assms by (simp add: floor_log2_def n_def)
  have "(2::rat) powi (bitlen n - 1) = of_int (2 ^ nat (bitlen n - 1))"
    using B1 by (simp add: power_int_nonneg_exp)
  also have "\<dots> \<le> of_int n" using b(1) by (simp only: of_int_le_iff)
  also have "\<dots> \<le> y" unfolding n_def by simp
  finally show "2 powi (floor_log2 y) \<le> y" unfolding L .
  have "n + 1 \<le> 2 ^ nat (bitlen n)" using b(2) by simp
  then have "(of_int (n + 1) :: rat) \<le> of_int (2 ^ nat (bitlen n))" by (simp only: of_int_le_iff)
  moreover have "y < of_int (n + 1)" unfolding n_def by simp linarith
  moreover have "(2::rat) powi (bitlen n - 1 + 1) = of_int (2 ^ nat (bitlen n))"
    using B1 by (simp add: power_int_nonneg_exp)
  ultimately show "y < 2 powi (floor_log2 y + 1)" unfolding L by simp
qed

lemma floor_log2_lt1:
  assumes "0 < y" "y < 1"
  shows "2 powi (floor_log2 y) \<le> y" and "y < 2 powi (floor_log2 y + 1)"
proof -
  define z where "z = 1 / y"
  define k where "k = \<lceil>z\<rceil> - 1"
  have z1: "1 < z" using assms unfolding z_def by simp
  have k1: "1 \<le> k" using z1 unfolding k_def by simp
  have kz: "of_int k < z" "z \<le> of_int k + 1" unfolding k_def by (simp_all, linarith)
  have b: "2 ^ nat (bitlen k - 1) \<le> k" "k < 2 ^ nat (bitlen k)"
    using bitlen_bounds [of k] k1 by auto
  have B1: "1 \<le> bitlen k" using k1 by (rule bitlen_pos)
  have L: "floor_log2 y = - bitlen k" using assms by (simp add: floor_log2_def k_def z_def)
  have p1: "(2::rat) powi (- bitlen k) = 1 / of_int (2 ^ nat (bitlen k))"
  proof -
    have "(2::rat) powi (- bitlen k) = 1 / 2 powi (bitlen k)" by (rule power_int_minus_divide)
    also have "(2::rat) powi (bitlen k) = of_int (2 ^ nat (bitlen k))"
      using B1 by (simp add: power_int_nonneg_exp)
    finally show ?thesis .
  qed
  have "k + 1 \<le> 2 ^ nat (bitlen k)" using b(2) by simp
  then have "(of_int (k + 1) :: rat) \<le> of_int (2 ^ nat (bitlen k))" by (simp only: of_int_le_iff)
  with kz(2) have "z \<le> of_int (2 ^ nat (bitlen k))" by (simp only: of_int_add of_int_1)
  then have "1 / y \<le> of_int (2 ^ nat (bitlen k))" unfolding z_def .
  then have "1 / of_int (2 ^ nat (bitlen k)) \<le> y"
    using assms(1) by (simp add: field_simps)
  then show "2 powi (floor_log2 y) \<le> y" unfolding L p1 .
  have p2: "(2::rat) powi (- bitlen k + 1) = 1 / of_int (2 ^ nat (bitlen k - 1))"
  proof -
    have "(2::rat) powi (- (bitlen k - 1)) = 1 / 2 powi (bitlen k - 1)" by (rule power_int_minus_divide)
    also have "(2::rat) powi (bitlen k - 1) = of_int (2 ^ nat (bitlen k - 1))"
      using B1 by (simp add: power_int_nonneg_exp)
    also have "- (bitlen k - 1) = - bitlen k + 1" by simp
    finally show ?thesis .
  qed
  have "(of_int (2 ^ nat (bitlen k - 1)) :: rat) \<le> of_int k" using b(1) by (simp only: of_int_le_iff)
  then have "of_int (2 ^ nat (bitlen k - 1)) < z" using kz(1) by (rule le_less_trans)
  then have "of_int (2 ^ nat (bitlen k - 1)) < 1 / y" unfolding z_def .
  then have "y < 1 / of_int (2 ^ nat (bitlen k - 1))"
    using assms(1) by (simp add: field_simps)
  then show "y < 2 powi (floor_log2 y + 1)" unfolding L p2 .
qed

lemma floor_log2_lower: "0 < y \<Longrightarrow> 2 powi (floor_log2 y) \<le> y"
  using floor_log2_ge1(1) floor_log2_lt1(1) by (cases "1 \<le> y") auto

lemma floor_log2_upper: "0 < y \<Longrightarrow> y < 2 powi (floor_log2 y + 1)"
  using floor_log2_ge1(2) floor_log2_lt1(2) by (cases "1 \<le> y") auto

lemma pow2_less_D:
  assumes "(2::rat) powi a < 2 powi b"
  shows "a < b"
proof (rule ccontr)
  assume "\<not> a < b"
  then have "(2::rat) powi b \<le> 2 powi a" by (intro power_int_increasing) simp_all
  with assms show False by simp
qed

lemma floor_log2_unique:
  assumes "0 < y" "2 powi l \<le> y" "y < 2 powi (l + 1)"
  shows "floor_log2 y = l"
proof (rule antisym)
  have "(2::rat) powi (floor_log2 y) < 2 powi (l + 1)"
    using floor_log2_lower [OF assms(1)] assms(3) by simp
  then have "floor_log2 y < l + 1" by (rule pow2_less_D)
  then show "floor_log2 y \<le> l" by simp
next
  have "(2::rat) powi l < 2 powi (floor_log2 y + 1)"
    using floor_log2_upper [OF assms(1)] assms(2) by simp
  then have "l < floor_log2 y + 1" by (rule pow2_less_D)
  then show "l \<le> floor_log2 y" by simp
qed

lemma floor_log2_mono:
  assumes "0 < x" "x \<le> y"
  shows "floor_log2 x \<le> floor_log2 y"
proof -
  have "(2::rat) powi (floor_log2 x) < 2 powi (floor_log2 y + 1)"
    using floor_log2_lower [OF assms(1)] floor_log2_upper [of y] assms by simp
  then have "floor_log2 x < floor_log2 y + 1" by (rule pow2_less_D)
  then show ?thesis by simp
qed

lemma round_half_even_cases:
  "round_half_even z = \<lfloor>z\<rfloor> \<or> round_half_even z = \<lfloor>z\<rfloor> + 1"
  by (simp add: round_half_even_def Let_def)

lemma round_half_even_of_int: "round_half_even (of_int k) = k"
  by (simp add: round_half_even_def Let_def)

lemma round_half_even_mono:
  assumes "z \<le> w"
  shows "round_half_even z \<le> round_half_even w"
proof (cases "\<lfloor>z\<rfloor> = \<lfloor>w\<rfloor>")
  case True
  then show ?thesis using assms by (auto simp add: round_half_even_def Let_def)
next
  case False
  then have "\<lfloor>z\<rfloor> + 1 \<le> \<lfloor>w\<rfloor>" using floor_mono [OF assms] by simp
  moreover have "round_half_even z \<le> \<lfloor>z\<rfloor> + 1" using round_half_even_cases [of z] by auto
  moreover have "\<lfloor>w\<rfloor> \<le> round_half_even w" using round_half_even_cases [of w] by auto
  ultimately show ?thesis by simp
qed

lemma fl_pos_unfold:
  assumes "0 < x"
  shows "fl x = of_int (round_half_even (x / 2 powi (floor_log2 x - 52))) * 2 powi (floor_log2 x - 52)"
  using assms by (simp add: fl_def Let_def)

lemma scaled_range:
  assumes "0 < x"
  shows "2 ^ 52 \<le> x / 2 powi (floor_log2 x - 52)" and "x / 2 powi (floor_log2 x - 52) < 2 ^ 53"
proof -
  have u: "(0::rat) < 2 powi (floor_log2 x - 52)" by simp
  have "(2::rat) ^ 52 * 2 powi (floor_log2 x - 52) = 2 powi 52 * 2 powi (floor_log2 x - 52)" by simp
  also have "\<dots> = 2 powi (floor_log2 x)" by (simp add: power_int_add [symmetric] del: power_int_numeral)
  finally have a: "(2::rat) ^ 52 * 2 powi (floor_log2 x - 52) = 2 powi (floor_log2 x)" .
  have "(2::rat) ^ 53 * 2 powi (floor_log2 x - 52) = 2 powi 53 * 2 powi (floor_log2 x - 52)" by simp
  also have "\<dots> = 2 powi (floor_log2 x + 1)" by (simp add: power_int_add [symmetric] add.commute del: power_int_numeral)
  finally have b: "(2::rat) ^ 53 * 2 powi (floor_log2 x - 52) = 2 powi (floor_log2 x + 1)" .
  show "2 ^ 52 \<le> x / 2 powi (floor_log2 x - 52)"
    using floor_log2_lower [OF assms] u a by (simp add: pos_le_divide_eq)
  show "x / 2 powi (floor_log2 x - 52) < 2 ^ 53"
    using floor_log2_upper [OF assms] u b by (simp add: pos_divide_less_eq)
qed

lemma rounded_range:
  assumes "0 < x"
  shows "2 ^ 52 \<le> round_half_even (x / 2 powi (floor_log2 x - 52))"
    and "round_half_even (x / 2 powi (floor_log2 x - 52)) \<le> 2 ^ 53"
proof -
  have "round_half_even (of_int (2 ^ 52)) \<le> round_half_even (x / 2 powi (floor_log2 x - 52))"
    by (rule round_half_even_mono) (use scaled_range(1) [OF assms] in simp)
  then show "2 ^ 52 \<le> round_half_even (x / 2 powi (floor_log2 x - 52))"
    by (simp only: round_half_even_of_int)
  have "round_half_even (x / 2 powi (floor_log2 x - 52)) \<le> round_half_even (of_int (2 ^ 53))"
    by (rule round_half_even_mono) (use scaled_range(2) [OF assms] in simp)
  then show "round_half_even (x / 2 powi (floor_log2 x - 52)) \<le> 2 ^ 53"
    by (simp only: round_half_even_of_int)
qed

lemma fl_0: "fl 0 = 0"
  by (simp add: fl_def)

lemma fl_pos: "0 < x \<Longrightarrow> 0 < fl x"
  using rounded_range(1) [of x] by (simp add: fl_pos_unfold zero_less_mult_iff)

lemma fl_nonneg: "0 \<le> x \<Longrightarrow> 0 \<le> fl x"
  using fl_pos [of x] fl_0 by (cases "x = 0") auto

lemma fl_range:
  assumes "0 < x"
  shows "2 powi (floor_log2 x) \<le> fl x" and "fl x \<le> 2 powi (floor_log2 x + 1)"
proof -
  let ?u = "(2::rat) powi (floor_log2 x - 52)"
  let ?r = "round_half_even (x / ?u)"
  have u: "0 < ?u" by simp
  have a: "(2::rat) powi (floor_log2 x) = of_int (2 ^ 52) * ?u"
  proof -
    have "of_int (2 ^ 52) * ?u = 2 powi 52 * ?u" by simp
    also have "\<dots> = 2 powi (floor_log2 x)" by (simp add: power_int_add [symmetric] del: power_int_numeral)
    finally show ?thesis by simp
  qed
  have b: "(2::rat) powi (floor_log2 x + 1) = of_int (2 ^ 53) * ?u"
  proof -
    have "of_int (2 ^ 53) * ?u = 2 powi 53 * ?u" by simp
    also have "\<dots> = 2 powi (floor_log2 x + 1)" by (simp add: power_int_add [symmetric] add.commute del: power_int_numeral)
    finally show ?thesis by simp
  qed
  have "(of_int (2 ^ 52) :: rat) \<le> of_int ?r" using rounded_range(1) [OF assms] by (simp only: of_int_le_iff)
  then have "of_int (2 ^ 52) * ?u \<le> of_int ?r * ?u" using u by (simp only: mult_le_cancel_right_pos)
  then show "2 powi (floor_log2 x) \<le> fl x" unfolding a fl_pos_unfold [OF assms] .
  have "(of_int ?r :: rat) \<le> of_int (2 ^ 53)" using rounded_range(2) [OF assms] by (simp only: of_int_le_iff)
  then have "of_int ?r * ?u \<le> of_int (2 ^ 53) * ?u" using u by (simp only: mult_le_cancel_right_pos)
  then show "fl x \<le> 2 powi (floor_log2 x + 1)" unfolding b fl_pos_unfold [OF assms] .
qed

lemma fl_mono_pos:
  assumes "0 < x" "x \<le> y"
  shows "fl x \<le> fl y"
proof -
  have y: "0 < y" using assms by simp
  have le: "floor_log2 x \<le> floor_log2 y" using assms by (rule floor_log2_mono)
  show ?thesis
  proof (cases "floor_log2 x = floor_log2 y")
    case True
    let ?u = "(2::rat) powi (floor_log2 y - 52)"
    have u: "0 < ?u" by simp
    have "x / ?u \<le> y / ?u" using assms(2) u by (intro divide_right_mono) simp_all
    then have "round_half_even (x / ?u) \<le> round_half_even (y / ?u)" by (rule round_half_even_mono)
    then have "(of_int (round_half_even (x / ?u)) :: rat) \<le> of_int (round_half_even (y / ?u))"
      by (simp only: of_int_le_iff)
    then have "of_int (round_half_even (x / ?u)) * ?u \<le> of_int (round_half_even (y / ?u)) * ?u"
      using u by (simp only: mult_le_cancel_right_pos)
    then show ?thesis unfolding fl_pos_unfold [OF assms(1)] fl_pos_unfold [OF y] True .
  next
    case False
    then have "floor_log2 x + 1 \<le> floor_log2 y" using le by simp
    then have "(2::rat) powi (floor_log2 x + 1) \<le> 2 powi (floor_log2 y)"
      by (simp add: power_int_increasing)
    with fl_range(2) [OF assms(1)] fl_range(1) [OF y] show ?thesis by simp
  qed
qed

lemma fl_mono:
  assumes "0 \<le> x" "x \<le> y"
  shows "fl x \<le> fl y"
proof (cases "x = 0")
  case True
  then show ?thesis using assms fl_nonneg [of y] by (simp add: fl_0)
next
  case False
  then show ?thesis using assms fl_mono_pos [of x y] by simp
qed

lemma fl_dyadic_small:
  assumes "0 < m" "m < 2 ^ 53"
  shows "fl (of_int m * 2 powi e) = of_int m * 2 powi e"
proof -
  define B where "B = bitlen m"
  have b: "2 ^ nat (B - 1) \<le> m" "m < 2 ^ nat B"
    using bitlen_bounds [of m] assms(1) unfolding B_def by auto
  have B1: "1 \<le> B" unfolding B_def using assms(1) by (intro bitlen_pos) simp
  have B53: "B \<le> 53" unfolding B_def using assms(2) by (simp add: bitlen_le_iff_power)
  let ?x = "of_int m * (2::rat) powi e"
  have x: "0 < ?x" using assms(1) by (simp add: zero_less_mult_iff)
  have lo: "2 powi (B - 1 + e) \<le> ?x"
  proof -
    have "(of_int (2 ^ nat (B - 1)) :: rat) \<le> of_int m" using b(1) by (simp only: of_int_le_iff)
    then have "(2::rat) powi (B - 1) \<le> of_int m" using B1 by (simp add: power_int_nonneg_exp)
    then have "(2::rat) powi (B - 1) * 2 powi e \<le> of_int m * 2 powi e"
      by (simp only: mult_le_cancel_right_pos zero_less_power_int zero_less_numeral)
    then show ?thesis by (simp add: power_int_add)
  qed
  have hi: "?x < 2 powi (B - 1 + e + 1)"
  proof -
    have "(of_int m :: rat) < of_int (2 ^ nat B)" using b(2) by (simp only: of_int_less_iff)
    then have "of_int m < (2::rat) powi B" using B1 by (simp add: power_int_nonneg_exp)
    then have "of_int m * 2 powi e < (2::rat) powi B * 2 powi e"
      by (simp only: mult_less_cancel_right_pos zero_less_power_int zero_less_numeral)
    then show ?thesis by (simp add: power_int_add)
  qed
  have L: "floor_log2 ?x = B - 1 + e" using x lo hi by (rule floor_log2_unique)
  have sc: "?x / 2 powi (B - 1 + e - 52) = of_int (m * 2 ^ nat (53 - B))"
  proof -
    have "(2::rat) powi e = 2 powi (53 - B) * 2 powi (B - 1 + e - 52)"
      by (simp add: power_int_add [symmetric])
    then have "?x / 2 powi (B - 1 + e - 52) = of_int m * 2 powi (53 - B)" by simp
    also have "\<dots> = of_int (m * 2 ^ nat (53 - B))" using B53 by (simp add: power_int_nonneg_exp)
    finally show ?thesis .
  qed
  have "fl ?x = of_int (m * 2 ^ nat (53 - B)) * 2 powi (B - 1 + e - 52)"
    unfolding fl_pos_unfold [OF x] L sc round_half_even_of_int ..
  also have "\<dots> = of_int m * (2 powi (53 - B) * 2 powi (B - 1 + e - 52))"
    using B53 by (simp add: power_int_nonneg_exp)
  also have "2 powi (53 - B) * 2 powi (B - 1 + e - 52) = (2::rat) powi e"
    by (simp add: power_int_add [symmetric])
  finally show ?thesis .
qed

lemma fl_dyadic:
  assumes "0 \<le> m" "m \<le> 2 ^ 53"
  shows "fl (of_int m * 2 powi e) = of_int m * 2 powi e"
proof -
  consider "m = 0" | "0 < m" "m < 2 ^ 53" | "m = 2 ^ 53" using assms by linarith
  then show ?thesis
  proof cases
    case 1
    then show ?thesis by (simp add: fl_0)
  next
    case 2
    then show ?thesis by (rule fl_dyadic_small)
  next
    case 3
    have "of_int m * (2::rat) powi e = of_int 1 * 2 powi (53 + e)"
      unfolding 3 by (simp add: power_int_add)
    then show ?thesis using fl_dyadic_small [of 1 "53 + e"] by simp
  qed
qed

lemma fl_of_int: "0 \<le> m \<Longrightarrow> m \<le> 2 ^ 53 \<Longrightarrow> fl (of_int m) = of_int m"
  using fl_dyadic [of m 0] by simp

lemma fl_idem:
  assumes "0 \<le> x"
  shows "fl (fl x) = fl x"
proof (cases "x = 0")
  case True
  then show ?thesis by (simp add: fl_0)
next
  case False
  then have x: "0 < x" using assms by simp
  have "0 \<le> round_half_even (x / 2 powi (floor_log2 x - 52))"
    using rounded_range(1) [OF x] by simp
  then show ?thesis
    unfolding fl_pos_unfold [OF x] using rounded_range(2) [OF x] by (rule fl_dyadic)
qed

section \<open>Aggregation\<close>

lemma series_max_Max:
  assumes "xs \<noteq> []"
  shows "series_max xs = Some (Max (set xs))"
proof (cases xs)
  case Nil
  with assms show ?thesis by simp
next
  case (Cons a l)
  then show ?thesis using Max.set_eq_fold [of a l] by simp
qed

lemma groupby_keys: "map fst (groupby key df) = sort (remdups (map key df))"
  by (simp add: groupby_def o_def)

lemma groupby_member:
  "kg \<in> set (groupby key df) \<Longrightarrow>
     fst kg \<in> key ` set df \<and> snd kg = filter (\<lambda>r. key r = fst kg) df \<and> snd kg \<noteq> []"
  by (auto simp: groupby_def filter_empty_conv)

lemma sum_list_indicator:
  "distinct ks \<Longrightarrow>
     sum_list (map (\<lambda>k. if k = a then (v::rat) else 0) ks) = (if a \<in> set ks then v else 0)"
  by (induction ks) auto

lemma sum_list_groups:
  "distinct ks \<Longrightarrow> key ` set rows \<subseteq> set ks \<Longrightarrow>
     sum_list (map (\<lambda>k. sum_list (map (val :: 'r \<Rightarrow> rat) (filter (\<lambda>r. key r = k) rows))) ks)
       = sum_list (map val rows)"
proof (induction rows)
  case Nil
  then show ?case by simp
next
  case (Cons r rows)
  have "sum_list (map (\<lambda>k. sum_list (map val (filter (\<lambda>r. key r = k) (r # rows)))) ks)
      = sum_list (map (\<lambda>k. (if k = key r then val r else 0)
                          + sum_list (map val (filter (\<lambda>r. key r = k) rows))) ks)"
    by (rule arg_cong [where f = sum_list], rule map_cong) auto
  also have "\<dots> = sum_list (map (\<lambda>k. if k = key r then val r else 0) ks)
                 + sum_list (map (\<lambda>k. sum_list (map val (filter (\<lambda>r. key r = k) rows))) ks)"
    by (simp add: sum_list_addf)
  also have "\<dots> = val r + sum_list (map val rows)"
    using Cons by (simp add: sum_list_indicator)
  finally show ?case by simp
qed

lemma sum_list_groupby:
  "sum_list (map (\<lambda>kg. sum_list (map (val :: 'r \<Rightarrow> rat) (snd kg))) (groupby key rows))
     = sum_list (map val rows)"
proof -
  have "sum_list (map (\<lambda>kg. sum_list (map val (snd kg))) (groupby key rows))
      = sum_list (map (\<lambda>k. sum_list (map val (filter (\<lambda>r. key r = k) rows)))
                      (sort (remdups (map key rows))))"
    by (simp add: groupby_def o_def)
  also have "\<dots> = sum_list (map val rows)"
    by (rule sum_list_groups) simp_all
  finally show ?thesis .
qed

lemma collect_Inr: "collect rs = Inr xs \<Longrightarrow> rs = map Inr xs"
proof (induction rs arbitrary: xs)
  case Nil
  then show ?case by simp
next
  case (Cons r rs)
  show ?case
  proof (cases r)
    case (Inl e)
    with Cons.prems show ?thesis by simp
  next
    case (Inr x)
    with Cons.prems obtain ys where ys: "collect rs = Inr ys" and xs: "xs = x # ys"
      by (auto split: sum.splits)
    from Cons.IH [OF ys] Inr xs show ?thesis by simp
  qed
qed

lemma collect_map_Inr: "collect (map Inr xs) = Inr xs"
  by (induction xs) simp_all

lemma collect_Inl: "collect rs = Inl e \<Longrightarrow> Inl e \<in> set rs"
proof (induction rs)
  case Nil
  then show ?case by simp
next
  case (Cons r rs)
  then show ?case by (cases r) (auto split: sum.splits)
qed

lemma days_ge_1: "86400000000000 \<le> td \<Longrightarrow> 1 \<le> days td"
  unfolding days_def by (simp add: pos_imp_zdiv_pos_iff)

lemma days_le: "td \<le> int64_max \<Longrightarrow> days td \<le> 106751"
  unfolding days_def int64_max_def by linarith

lemma recency_days_Inr:
  assumes "recency_days d x = Inr rec" and "x \<noteq> []"
  shows "rec = days (d - Max (set x))" and "d - Max (set x) \<le> int64_max"
  using assms series_max_Max [OF assms(2)]
  by (auto simp: recency_days_def timestamp_sub_def split: if_splits)

lemma recency_days_Inl:
  "recency_days d x = Inl e \<Longrightarrow> e = OutOfBoundsTimedelta"
  by (auto simp: recency_days_def timestamp_sub_def split: option.splits if_splits)

lemma agg_group_Inr:
  assumes "agg_group psum d kg = Inr m" and "snd kg \<noteq> []"
  shows "customer m = fst kg"
    and "recency m = days (d - Max (set (map order_purchase_timestamp (snd kg))))"
    and "d - Max (set (map order_purchase_timestamp (snd kg))) \<le> int64_max"
    and "frequency m = nunique (map order_id (snd kg))"
    and "monetary m = psum (map price (snd kg))"
proof -
  from assms(1) obtain rec where
    rec: "recency_days d (map order_purchase_timestamp (snd kg)) = Inr rec"
    and m: "m = \<lparr> customer = fst kg, recency = rec,
                   frequency = nunique (map order_id (snd kg)),
                   monetary = psum (map price (snd kg)) \<rparr>"
    by (auto simp: agg_group_def split: sum.splits)
  have ne: "map order_purchase_timestamp (snd kg) \<noteq> []" using assms(2) by simp
  show "customer m = fst kg" by (simp add: m)
  show "recency m = days (d - Max (set (map order_purchase_timestamp (snd kg))))"
    using recency_days_Inr(1) [OF rec ne] by (simp add: m)
  show "d - Max (set (map order_purchase_timestamp (snd kg))) \<le> int64_max"
    by (rule recency_days_Inr(2) [OF rec ne])
  show "frequency m = nunique (map order_id (snd kg))" by (simp add: m)
  show "monetary m = psum (map price (snd kg))" by (simp add: m)
qed

lemma agg_group_customer: "agg_group psum d kg = Inr m \<Longrightarrow> customer m = fst kg"
  by (auto simp: agg_group_def split: sum.splits)

lemma rfm_metrics_Inr:
  assumes "rfm_metrics psum d df = Inr ms"
  shows "map (agg_group psum d) (groupby customer_unique_id df) = map Inr ms"
    and "length ms = nunique (map customer_unique_id df)"
    and "map customer ms = sort (remdups (map customer_unique_id df))"
proof -
  show eq: "map (agg_group psum d) (groupby customer_unique_id df) = map Inr ms"
    using assms unfolding rfm_metrics_def by (rule collect_Inr)
  from eq have len: "length (groupby customer_unique_id df) = length ms"
    using map_eq_imp_length_eq by fastforce
  then show "length ms = nunique (map customer_unique_id df)"
    by (simp add: groupby_def nunique_def)
  have "map customer ms = map fst (groupby customer_unique_id df)"
  proof (rule nth_equalityI)
    show "length (map customer ms) = length (map fst (groupby customer_unique_id df))"
      using len by simp
  next
    fix i assume "i < length (map customer ms)"
    then have i: "i < length ms" by simp
    have "map (agg_group psum d) (groupby customer_unique_id df) ! i = map Inr ms ! i"
      by (simp only: eq)
    then have "agg_group psum d (groupby customer_unique_id df ! i) = Inr (ms ! i)"
      using i len by simp
    then have "customer (ms ! i) = fst (groupby customer_unique_id df ! i)"
      by (rule agg_group_customer)
    then show "map customer ms ! i = map fst (groupby customer_unique_id df) ! i"
      using i len by simp
  qed
  then show "map customer ms = sort (remdups (map customer_unique_id df))"
    by (simp only: groupby_keys)
qed

lemma rfm_metrics_row:
  assumes "rfm_metrics psum d df = Inr ms" and "m \<in> set ms"
  defines "rows \<equiv> filter (\<lambda>r. customer_unique_id r = customer m) df"
  shows "rows \<noteq> []"
    and "recency m = days (d - Max (set (map order_purchase_timestamp rows)))"
    and "d - Max (set (map order_purchase_timestamp rows)) \<le> int64_max"
    and "frequency m = card (set (map order_id rows))"
    and "monetary m = psum (map price rows)"
proof -
  note eq = rfm_metrics_Inr(1) [OF assms(1)]
  from assms(2) obtain i where i: "i < length ms" "m = ms ! i" by (auto simp: in_set_conv_nth)
  have len: "length (groupby customer_unique_id df) = length ms"
    using eq map_eq_imp_length_eq by fastforce
  define kg where "kg = groupby customer_unique_id df ! i"
  have kg: "kg \<in> set (groupby customer_unique_id df)" unfolding kg_def using i len by simp
  have "map (agg_group psum d) (groupby customer_unique_id df) ! i = map Inr ms ! i"
    by (simp only: eq)
  then have a: "agg_group psum d kg = Inr m" unfolding kg_def using i len by simp
  have c: "customer m = fst kg" using a by (rule agg_group_customer)
  from groupby_member [OF kg] have g: "snd kg = rows" and ne: "snd kg \<noteq> []"
    unfolding rows_def c by blast+
  note A = agg_group_Inr [OF a ne]
  show "rows \<noteq> []" using g ne by simp
  show "recency m = days (d - Max (set (map order_purchase_timestamp rows)))"
    using A(2) unfolding g .
  show "d - Max (set (map order_purchase_timestamp rows)) \<le> int64_max"
    using A(3) unfolding g .
  show "frequency m = card (set (map order_id rows))"
    using A(4) unfolding g by (simp add: nunique_def length_remdups_card_conv)
  show "monetary m = psum (map price rows)" using A(5) unfolding g .
qed

lemma qcut_Inr:
  assumes "qcut x 5 labels = Inr ss"
  shows "x \<noteq> []"
    and "distinct (bin_edges x 5)"
    and "length labels = 5"
    and "ss = map (\<lambda>v. take_label labels 6 (cut_id (bin_edges x 5) v)) x"
  using assms
  by (auto simp: qcut_def bins_to_cuts_def bin_edges_def quantiles_def linspace01_def
      split: if_splits)

lemma score_rows_Inr:
  assumes "score_rows psum ms = Inr (rfm, seg)"
  obtains rs fs where
    "qcut (map (\<lambda>r. of_int (recency r)) ms) 5 [5, 4, 3, 2, 1] = Inr rs"
    "qcut (map of_nat (rank_first (map frequency ms))) 5 [1, 2, 3, 4, 5] = Inr fs"
    "rfm = map2 add_scores ms (zip rs fs)"
    "seg = revenue_per_type psum rfm"
  using assms
  by (auto simp: score_rows_def Let_def split: sum.splits)

lemma score_rows_Nil: "score_rows psum [] = Inl BinEdgesNotUnique"
  by (simp add: score_rows_def qcut_def)

lemma create_rfm_df_Inr:
  assumes "create_rfm_df psum df = Inr (rfm, seg)"
  obtains d ms rs fs where
    "max_date df = Inr (Some d)"
    "rfm_metrics psum d df = Inr ms"
    "qcut (map (\<lambda>r. of_int (recency r)) ms) 5 [5, 4, 3, 2, 1] = Inr rs"
    "qcut (map of_nat (rank_first (map frequency ms))) 5 [1, 2, 3, 4, 5] = Inr fs"
    "rfm = map2 add_scores ms (zip rs fs)"
    "seg = revenue_per_type psum rfm"
proof -
  from assms obtain d ms where d: "max_date df = Inr (Some d)"
    and ms: "rfm_metrics psum d df = Inr ms" and sc: "score_rows psum ms = Inr (rfm, seg)"
    by (auto simp: create_rfm_df_def score_rows_Nil split: sum.splits option.splits)
  from sc obtain rs fs where
    "qcut (map (\<lambda>r. of_int (recency r)) ms) 5 [5, 4, 3, 2, 1] = Inr rs"
    "qcut (map of_nat (rank_first (map frequency ms))) 5 [1, 2, 3, 4, 5] = Inr fs"
    "rfm = map2 add_scores ms (zip rs fs)"
    "seg = revenue_per_type psum rfm"
    by (rule score_rows_Inr)
  with d ms show ?thesis by (rule that)
qed

lemma length_rank_first: "length (rank_first xs) = length xs"
  by (simp add: rank_first_def)

lemma scored_rows:
  assumes "qcut (map (\<lambda>r. of_int (recency r)) ms) 5 [5, 4, 3, 2, 1] = Inr rs"
    and "qcut (map of_nat (rank_first (map frequency ms))) 5 [1, 2, 3, 4, 5] = Inr fs"
  shows "length rs = length ms" and "length fs = length ms"
    and "length (map2 add_scores ms (zip rs fs)) = length ms"
    and "i < length ms \<Longrightarrow> map2 add_scores ms (zip rs fs) ! i = add_scores (ms ! i) (rs ! i, fs ! i)"
proof -
  show r: "length rs = length ms" using qcut_Inr(4) [OF assms(1)] by simp
  show f: "length fs = length ms" using qcut_Inr(4) [OF assms(2)] by (simp add: length_rank_first)
  show "length (map2 add_scores ms (zip rs fs)) = length ms" using r f by simp
  show "i < length ms \<Longrightarrow> map2 add_scores ms (zip rs fs) ! i = add_scores (ms ! i) (rs ! i, fs ! i)"
    using r f by simp
qed

lemma map2_add_scores_metrics:
  assumes "length rs = length ms" and "length fs = length ms"
  shows "map customer (map2 add_scores ms (zip rs fs)) = map customer ms"
    and "map recency (map2 add_scores ms (zip rs fs)) = map recency ms"
    and "map frequency (map2 add_scores ms (zip rs fs)) = map frequency ms"
    and "map monetary (map2 add_scores ms (zip rs fs)) = map monetary ms"
  using assms by (auto intro!: nth_equalityI simp: add_scores_def)

lemma rfm_metrics_is_aggregation:
  assumes "rfm_metrics psum d df = Inr ms"
  shows "is_aggregation psum df d ms"
proof -
  have "distinct (map customer ms)"
    by (simp add: rfm_metrics_Inr(3) [OF assms])
  moreover have "set (map customer ms) = customer_unique_id ` set df"
    by (simp add: rfm_metrics_Inr(3) [OF assms])
  moreover have "\<forall>c\<in>set ms.
        recency c = days (d - Max (order_purchase_timestamp ` {r \<in> set df. customer_unique_id r = customer c})) \<and>
        frequency c = card (order_id ` {r \<in> set df. customer_unique_id r = customer c}) \<and>
        monetary c = psum (map price (filter (\<lambda>r. customer_unique_id r = customer c) df))"
    using rfm_metrics_row(2,4,5) [OF assms] by simp
  ultimately show ?thesis unfolding is_aggregation_def by blast
qed

lemma is_aggregation_cong:
  assumes "is_aggregation psum df d ms"
    and "map customer t = map customer ms" and "map recency t = map recency ms"
    and "map frequency t = map frequency ms" and "map monetary t = map monetary ms"
  shows "is_aggregation psum df d t"
proof -
  have len: "length t = length ms" using assms(2) by (rule map_eq_imp_length_eq)
  have "\<And>c. c \<in> set t \<Longrightarrow> \<exists>m\<in>set ms. customer c = customer m \<and> recency c = recency m \<and>
            frequency c = frequency m \<and> monetary c = monetary m"
  proof -
    fix c assume "c \<in> set t"
    then obtain i where i: "i < length t" "c = t ! i" by (auto simp: in_set_conv_nth)
    have "customer (t ! i) = customer (ms ! i)" using assms(2) i len by (metis nth_map)
    moreover have "recency (t ! i) = recency (ms ! i)" using assms(3) i len by (metis nth_map)
    moreover have "frequency (t ! i) = frequency (ms ! i)" using assms(4) i len by (metis nth_map)
    moreover have "monetary (t ! i) = monetary (ms ! i)" using assms(5) i len by (metis nth_map)
    ultimately show "\<exists>m\<in>set ms. customer c = customer m \<and> recency c = recency m \<and>
            frequency c = frequency m \<and> monetary c = monetary m"
      using i len by (metis nth_mem)
  qed
  note same = this
  have d: "distinct (map customer t)" and k: "set (map customer t) = customer_unique_id ` set df"
    using assms(1) unfolding is_aggregation_def assms(2) by blast+
  have "recency c = days (d - Max (order_purchase_timestamp ` {r \<in> set df. customer_unique_id r = customer c})) \<and>
        frequency c = card (order_id ` {r \<in> set df. customer_unique_id r = customer c}) \<and>
        monetary c = psum (map price (filter (\<lambda>r. customer_unique_id r = customer c) df))"
    if "c \<in> set t" for c
  proof -
    from same [OF that] obtain m where m: "m \<in> set ms" "customer c = customer m"
      "recency c = recency m" "frequency c = frequency m" "monetary c = monetary m" by blast
    from assms(1) m(1) have
      "recency m = days (d - Max (order_purchase_timestamp ` {r \<in> set df. customer_unique_id r = customer m})) \<and>
        frequency m = card (order_id ` {r \<in> set df. customer_unique_id r = customer m}) \<and>
        monetary m = psum (map price (filter (\<lambda>r. customer_unique_id r = customer m) df))"
      unfolding is_aggregation_def by blast
    then show ?thesis unfolding m(2-5) .
  qed
  with d k show ?thesis unfolding is_aggregation_def by blast
qed

lemma max_date_SomeD:
  assumes "max_date df = Inr (Some d)"
  shows "df \<noteq> []" and "d = Max (order_purchase_timestamp ` set df) + Timedelta_days 1"
    and "d \<le> int64_max"
proof -
  show ne: "df \<noteq> []" using assms
    by (auto simp: max_date_def latest_plus_day_def)
  then have m: "series_max (map order_purchase_timestamp df)
      = Some (Max (order_purchase_timestamp ` set df))"
    using series_max_Max [of "map order_purchase_timestamp df"] by simp
  from assms show "d = Max (order_purchase_timestamp ` set df) + Timedelta_days 1"
    and "d \<le> int64_max"
    unfolding max_date_def latest_plus_day_def m
    by (auto simp: timestamp_add_def split: if_splits)
qed

lemma create_rfm_df_metrics:
  assumes "create_rfm_df psum df = Inr (rfm, seg)"
  obtains ms where
    "rfm_metrics psum (Max (order_purchase_timestamp ` set df) + Timedelta_days 1) df = Inr ms"
    "map customer rfm = map customer ms" "map recency rfm = map recency ms"
    "map frequency rfm = map frequency ms" "map monetary rfm = map monetary ms"
proof -
  from assms obtain d ms rs fs where
    d: "max_date df = Inr (Some d)"
    and ms: "rfm_metrics psum d df = Inr ms"
    and rs: "qcut (map (\<lambda>r. of_int (recency r)) ms) 5 [5, 4, 3, 2, 1] = Inr rs"
    and fs: "qcut (map of_nat (rank_first (map frequency ms))) 5 [1, 2, 3, 4, 5] = Inr fs"
    and rfm: "rfm = map2 add_scores ms (zip rs fs)"
    by (rule create_rfm_df_Inr)
  have d': "d = Max (order_purchase_timestamp ` set df) + Timedelta_days 1"
    using max_date_SomeD(2) [OF d] .
  note len = scored_rows(1,2) [OF rs fs]
  show ?thesis
  proof (rule that)
    show "rfm_metrics psum (Max (order_purchase_timestamp ` set df) + Timedelta_days 1) df = Inr ms"
      using ms unfolding d' .
    show "map customer rfm = map customer ms"
      unfolding rfm by (rule map2_add_scores_metrics(1) [OF len])
    show "map recency rfm = map recency ms"
      unfolding rfm by (rule map2_add_scores_metrics(2) [OF len])
    show "map frequency rfm = map frequency ms"
      unfolding rfm by (rule map2_add_scores_metrics(3) [OF len])
    show "map monetary rfm = map monetary ms"
      unfolding rfm by (rule map2_add_scores_metrics(4) [OF len])
  qed
qed

lemma create_rfm_df_is_aggregation:
  assumes "create_rfm_df psum df = Inr (rfm, seg)"
  shows "is_aggregation psum df (Max (order_purchase_timestamp ` set df) + Timedelta_days 1) rfm"
proof -
  from assms obtain ms where
    ms: "rfm_metrics psum (Max (order_purchase_timestamp ` set df) + Timedelta_days 1) df = Inr ms"
    and eq: "map customer rfm = map customer ms" "map recency rfm = map recency ms"
      "map frequency rfm = map frequency ms" "map monetary rfm = map monetary ms"
    by (rule create_rfm_df_metrics)
  show ?thesis by (rule is_aggregation_cong [OF rfm_metrics_is_aggregation [OF ms] eq])
qed


section \<open>Evaluation\<close>

lemma quantile_sort: "quantile (sort x) p = quantile x p"
  by (simp add: quantile_def sorted_sort_id)

lemma bin_edges_sort: "bin_edges (sort x) q = bin_edges x q"
  by (simp add: bin_edges_def quantile_sort)

lemma quantiles_5:
  "quantiles 5 =
     [0, 3602879701896397 / 18014398509481984, 3602879701896397 / 9007199254740992,
      1351079888211149 / 2251799813685248, 3602879701896397 / 4503599627370496, 1]"
  by code_simp

lemma bin_edges_5:
  "bin_edges x 5 =
     [quantile x 0, quantile x (3602879701896397 / 18014398509481984),
      quantile x (3602879701896397 / 9007199254740992),
      quantile x (1351079888211149 / 2251799813685248),
      quantile x (3602879701896397 / 4503599627370496), quantile x 1]"
  by (simp add: bin_edges_def quantiles_5)

lemma edges_1_to_5:
  "bin_edges [1, 2, 3, 4, 5] 5 =
     [1, 8106479329266893 / 4503599627370496, 5854679515581645 / 2251799813685248,
      1914029841632461 / 562949953421312, 4728779608739021 / 1125899906842624, 5]"
  unfolding bin_edges_5 by code_simp

lemma edges_1_to_4:
  "bin_edges [1, 2, 3, 4] 5 =
     [1, 3602879701896397 / 2251799813685248, 2476979795053773 / 1125899906842624,
      6305039478318695 / 2251799813685248, 1914029841632461 / 562949953421312, 4]"
  unfolding bin_edges_5 by code_simp

lemma edges_1_to_7:
  "bin_edges [1, 2, 3, 4, 5, 6, 7] 5 =
     [1, 2476979795053773 / 1125899906842624, 1914029841632461 / 562949953421312,
      5179139571476071 / 1125899906842624, 1632554864921805 / 281474976710656, 7]"
  unfolding bin_edges_5 by code_simp

lemma edges_seven:
  "bin_edges [1, 2, 3, 4, 4, 5, 6] 5 =
     [1, 2476979795053773 / 1125899906842624, 1914029841632461 / 562949953421312, 4,
      1351079888211149 / 281474976710656, 6]"
  unfolding bin_edges_5 by code_simp

lemma kahan_exact:
  assumes "0 \<le> a" and "list_all (\<lambda>i. 0 \<le> i) js" and "a + sum_list js \<le> 2 ^ 53"
  shows "kahan (of_int a) 0 (map of_int js) = of_int (a + sum_list js)"
  using assms
proof (induction js arbitrary: a)
  case Nil
  then show ?case by simp
next
  case (Cons i js)
  have i0: "0 \<le> i" and rest: "list_all (\<lambda>i. 0 \<le> i) js" using Cons.prems(2) by simp_all
  have s0: "0 \<le> sum_list js" using rest by (intro sum_list_nonneg) (simp add: list_all_iff)
  have ai: "0 \<le> a + i" "a + i \<le> 2 ^ 53" "i \<le> 2 ^ 53"
    using Cons.prems(1,3) i0 s0 by simp_all
  have y: "fl (of_int i) = of_int i" by (rule fl_of_int [OF i0 ai(3)])
  have t: "fl (of_int a + of_int i) = of_int a + of_int i" using fl_of_int [OF ai(1,2)] by simp
  have "kahan (of_int a) 0 (map of_int (i # js)) = kahan (of_int (a + i)) 0 (map of_int js)"
    by (simp add: Let_def y t fl_0)
  also have "\<dots> = of_int (a + i + sum_list js)"
    using Cons.prems(3) by (intro Cons.IH ai(1) rest) simp
  finally show ?case by (simp add: add.assoc)
qed

lemma group_sum_ints:
  assumes "list_all (\<lambda>i. 0 \<le> i) js" and "sum_list js \<le> 2 ^ 53"
  shows "group_sum (map of_int js) = of_int (sum_list js)"
  using kahan_exact [of 0 js] assms by (simp add: group_sum_def)



lemma create_rfm_df_steps:
  assumes "max_date df = Inr (Some d)" and "rfm_metrics psum d df = Inr ms"
    and "qcut (map (\<lambda>r. of_int (recency r)) ms) 5 [5, 4, 3, 2, 1] = rs"
    and "qcut (map of_nat (rank_first (map frequency ms))) 5 [1, 2, 3, 4, 5] = fs"
  shows "create_rfm_df psum df =
           (case rs of Inl e \<Rightarrow> Inl e
            | Inr r_scores \<Rightarrow>
               (case fs of Inl e \<Rightarrow> Inl e
                | Inr f_scores \<Rightarrow>
                    Inr (map2 add_scores ms (zip r_scores f_scores),
                         revenue_per_type psum (map2 add_scores ms (zip r_scores f_scores)))))"
proof -
  from assms(1,2) have "create_rfm_df psum df = score_rows psum ms"
    by (simp add: create_rfm_df_def)
  then show ?thesis unfolding score_rows_def assms(3) assms(4) Let_def .
qed

lemma qcut_by_edges:
  assumes "x \<noteq> []" and "sort x = s" and "bin_edges s 5 = bins"
  shows "qcut x 5 labels = bins_to_cuts x bins labels"
  using assms bin_edges_sort [of x 5] by (simp add: qcut_def)

lemma five_customers_table:
  "max_date five_customers = Inr (Some (Timedelta_days 6))"
  "rfm_metrics psum (Timedelta_days 6) five_customers =
     Inr [\<lparr> customer = ''a'', recency = 5, frequency = 1, monetary = psum [10] \<rparr>,
          \<lparr> customer = ''b'', recency = 4, frequency = 1, monetary = psum [20] \<rparr>,
          \<lparr> customer = ''c'', recency = 3, frequency = 1, monetary = psum [30] \<rparr>,
          \<lparr> customer = ''d'', recency = 2, frequency = 1, monetary = psum [40] \<rparr>,
          \<lparr> customer = ''e'', recency = 1, frequency = 2, monetary = psum [5, 7, 1] \<rparr>]"
  by code_simp+

lemma cuts_5:
  "qcut [5, 4, 3, 2, 1] 5 [5, 4, 3, 2, 1] = Inr [Some 1, Some 2, Some 3, Some 4, Some 5]"
  "qcut [1, 2, 3, 4, 5] 5 [1, 2, 3, 4, 5] = Inr [Some 1, Some 2, Some 3, Some 4, Some 5]"
  "qcut [5, 1, 2, 3, 4] 5 [1, 2, 3, 4, 5] = Inr [Some 5, Some 1, Some 2, Some 3, Some 4]"
proof -
  have s: "sort [5, 4, 3, 2, 1 :: rat] = [1, 2, 3, 4, 5]" "sort [1, 2, 3, 4, 5 :: rat] = [1, 2, 3, 4, 5]"
    "sort [5, 1, 2, 3, 4 :: rat] = [1, 2, 3, 4, 5]"
    by code_simp+
  show "qcut [5, 4, 3, 2, 1] 5 [5, 4, 3, 2, 1] = Inr [Some 1, Some 2, Some 3, Some 4, Some 5]"
    unfolding qcut_by_edges [OF _ s(1) edges_1_to_5, simplified] by code_simp
  show "qcut [1, 2, 3, 4, 5] 5 [1, 2, 3, 4, 5] = Inr [Some 1, Some 2, Some 3, Some 4, Some 5]"
    unfolding qcut_by_edges [OF _ s(2) edges_1_to_5, simplified] by code_simp
  show "qcut [5, 1, 2, 3, 4] 5 [1, 2, 3, 4, 5] = Inr [Some 5, Some 1, Some 2, Some 3, Some 4]"
    unfolding qcut_by_edges [OF _ s(3) edges_1_to_5, simplified] by code_simp
qed

lemma group_sum_eval:
  assumes "list_all (\<lambda>i. 0 \<le> i) js" and "sum_list js \<le> 2 ^ 53"
    and "xs = map of_int js" and "v = of_int (sum_list js)"
  shows "group_sum xs = v"
  unfolding assms(3,4) using assms(1,2) by (rule group_sum_ints)


lemma five_customers_scored:
  "create_rfm_df psum five_customers =
     Inr ([scored ''a'' 5 1 (psum [10]) 1 1 ''11'' ''Lost'',
           scored ''b'' 4 1 (psum [20]) 2 2 ''22'' ''Hibernating'',
           scored ''c'' 3 1 (psum [30]) 3 3 ''33'' ''Potential loyalist'',
           scored ''d'' 2 1 (psum [40]) 4 4 ''44'' ''Champions'',
           scored ''e'' 1 2 (psum [5, 7, 1]) 5 5 ''55'' ''Champions''],
          [segment ''Champions'' (psum [psum [40], psum [5, 7, 1]]),
           segment ''Hibernating'' (psum [psum [20]]),
           segment ''Lost'' (psum [psum [10]]),
           segment ''Potential loyalist'' (psum [psum [30]])])"
proof -
  let ?ms = "[\<lparr> customer = ''a'', recency = 5, frequency = 1, monetary = psum [10] \<rparr>,
          \<lparr> customer = ''b'', recency = 4, frequency = 1, monetary = psum [20] \<rparr>,
          \<lparr> customer = ''c'', recency = 3, frequency = 1, monetary = psum [30] \<rparr>,
          \<lparr> customer = ''d'', recency = 2, frequency = 1, monetary = psum [40] \<rparr>,
          \<lparr> customer = ''e'', recency = 1, frequency = 2, monetary = psum [5, 7, 1] \<rparr>]"
  have r: "qcut (map (\<lambda>r. of_int (recency r)) ?ms) 5 [5, 4, 3, 2, 1]
             = Inr [Some 1, Some 2, Some 3, Some 4, Some 5]"
    using cuts_5(1) by simp
  have "rank_first (map frequency ?ms) = [1, 2, 3, 4, 5]" by code_simp
  then have f: "qcut (map of_nat (rank_first (map frequency ?ms))) 5 [1, 2, 3, 4, 5]
             = Inr [Some 1, Some 2, Some 3, Some 4, Some 5]"
    using cuts_5(2) by simp
  show ?thesis
    unfolding create_rfm_df_steps [OF five_customers_table r f] by code_simp
qed

lemma five_customers_run: "create_rfm_df group_sum five_customers = Inr (five_rfm, five_seg)"
proof -
  have s: "group_sum [10] = 10" "group_sum [20] = 20" "group_sum [30] = 30" "group_sum [40] = 40"
    "group_sum [5, 7, 1] = 13" "group_sum [40, 13] = 53"
    by (rule group_sum_eval [of "[10]"], simp_all)
       (rule group_sum_eval [of "[20]"], simp_all,
        rule group_sum_eval [of "[30]"], simp_all,
        rule group_sum_eval [of "[40]"], simp_all,
        rule group_sum_eval [of "[5, 7, 1]"], simp_all,
        rule group_sum_eval [of "[40, 13]"], simp_all)
  show ?thesis
    unfolding five_customers_scored five_rfm_def five_seg_def s ..
qed

lemma rounding_customers_table:
  "max_date rounding_customers = Inr (Some (Timedelta_days 6))"
  "rfm_metrics psum (Timedelta_days 6) rounding_customers =
     Inr [\<lparr> customer = ''a'', recency = 5, frequency = 2, monetary = psum [9007199254740992, 1] \<rparr>,
          \<lparr> customer = ''b'', recency = 4, frequency = 1, monetary = psum [1] \<rparr>,
          \<lparr> customer = ''c'', recency = 3, frequency = 1, monetary = psum [1] \<rparr>,
          \<lparr> customer = ''d'', recency = 2, frequency = 1, monetary = psum [1] \<rparr>,
          \<lparr> customer = ''e'', recency = 1, frequency = 1, monetary = psum [1] \<rparr>]"
  by code_simp+

lemma rounding_customers_scored:
  "create_rfm_df psum rounding_customers =
     Inr ([scored ''a'' 5 2 (psum [9007199254740992, 1]) 1 5 ''15'' ''At risk'',
           scored ''b'' 4 1 (psum [1]) 2 1 ''21'' ''Lost'',
           scored ''c'' 3 1 (psum [1]) 3 2 ''32'' ''Potential loyalist'',
           scored ''d'' 2 1 (psum [1]) 4 3 ''43'' ''Potential loyalist'',
           scored ''e'' 1 1 (psum [1]) 5 4 ''54'' ''Champions''],
          [segment ''At risk'' (psum [psum [9007199254740992, 1]]),
           segment ''Champions'' (psum [psum [1]]),
           segment ''Lost'' (psum [psum [1]]),
           segment ''Potential loyalist'' (psum [psum [1], psum [1]])])"
proof -
  let ?ms = "[\<lparr> customer = ''a'', recency = 5, frequency = 2, monetary = psum [9007199254740992, 1] \<rparr>,
          \<lparr> customer = ''b'', recency = 4, frequency = 1, monetary = psum [1] \<rparr>,
          \<lparr> customer = ''c'', recency = 3, frequency = 1, monetary = psum [1] \<rparr>,
          \<lparr> customer = ''d'', recency = 2, frequency = 1, monetary = psum [1] \<rparr>,
          \<lparr> customer = ''e'', recency = 1, frequency = 1, monetary = psum [1] \<rparr>]"
  have r: "qcut (map (\<lambda>r. of_int (recency r)) ?ms) 5 [5, 4, 3, 2, 1]
             = Inr [Some 1, Some 2, Some 3, Some 4, Some 5]"
    using cuts_5(1) by simp
  have "rank_first (map frequency ?ms) = [5, 1, 2, 3, 4]" by code_simp
  then have f: "qcut (map of_nat (rank_first (map frequency ?ms))) 5 [1, 2, 3, 4, 5]
             = Inr [Some 5, Some 1, Some 2, Some 3, Some 4]"
    using cuts_5(3) by simp
  show ?thesis
    unfolding create_rfm_df_steps [OF rounding_customers_table r f] by code_simp
qed

lemma group_sum_rounds: "group_sum [9007199254740992, 1] = 9007199254740992"
  by code_simp

lemma rounding_customers_run:
  "create_rfm_df group_sum rounding_customers = Inr (rounding_rfm, rounding_seg)"
proof -
  have s: "group_sum [1] = 1" "group_sum [1, 1] = 2"
    "group_sum [9007199254740992] = 9007199254740992"
    by (rule group_sum_eval [of "[1]"], simp_all)
       (rule group_sum_eval [of "[1, 1]"], simp_all,
        rule group_sum_eval [of "[9007199254740992]"], simp_all)
  show ?thesis
    unfolding rounding_customers_scored rounding_rfm_def rounding_seg_def group_sum_rounds s ..
qed

text \<open>
  C6. For every input, reference date and summation routine: when the aggregation of
  lines 57 to 73 does not raise, it yields one row per distinct customer, with the
  recency and the frequency of that customer's rows and, as monetary value, the float64
  sum that the routine computes of the customer's prices in frame order. The table
  \<open>create_rfm_df\<close> returns has the same property for the reference date of line 54.
\<close>

theorem per_customer_aggregation:
  "(rfm_metrics psum d df = Inr t \<longrightarrow> is_aggregation psum df d t) \<and>
   (create_rfm_df psum df = Inr (rfm, seg) \<longrightarrow>
      is_aggregation psum df (Max (order_purchase_timestamp ` set df) + Timedelta_days 1) rfm)"
  using rfm_metrics_is_aggregation create_rfm_df_is_aggregation by blast

lemma five_metrics_run:
  "rfm_metrics group_sum (Timedelta_days 6) five_customers = Inr five_metrics"
proof -
  have s: "group_sum [10] = 10" "group_sum [20] = 20" "group_sum [30] = 30" "group_sum [40] = 40"
    "group_sum [5, 7, 1] = 13"
    by (rule group_sum_eval [of "[10]"], simp_all)
       (rule group_sum_eval [of "[20]"], simp_all,
        rule group_sum_eval [of "[30]"], simp_all,
        rule group_sum_eval [of "[40]"], simp_all,
        rule group_sum_eval [of "[5, 7, 1]"], simp_all)
  show ?thesis unfolding five_customers_table(2) five_metrics_def metrics_def s ..
qed

theorem per_customer_aggregation_witness:
  "rfm_metrics group_sum (Timedelta_days 6) five_customers = Inr five_metrics \<and>
   create_rfm_df group_sum five_customers = Inr (five_rfm, five_seg) \<and>
   is_aggregation group_sum five_customers (Timedelta_days 6) five_metrics \<and>
   is_aggregation group_sum five_customers
     (Max (order_purchase_timestamp ` set five_customers) + Timedelta_days 1) five_rfm \<and>
   map customer five_rfm = [''a'', ''b'', ''c'', ''d'', ''e''] \<and>
   map frequency five_rfm = [1, 1, 1, 1, 2] \<and>
   map monetary five_rfm = [10, 20, 30, 40, 13]"
proof -
  from per_customer_aggregation
    [of group_sum "Timedelta_days 6" five_customers five_metrics five_rfm five_seg]
    five_metrics_run five_customers_run
  have "is_aggregation group_sum five_customers (Timedelta_days 6) five_metrics"
    and "is_aggregation group_sum five_customers
          (Max (order_purchase_timestamp ` set five_customers) + Timedelta_days 1) five_rfm"
    by blast+
  moreover have "map customer five_rfm = [''a'', ''b'', ''c'', ''d'', ''e'']"
    and "map frequency five_rfm = [1, 1, 1, 1, 2]"
    and "map monetary five_rfm = [10, 20, 30, 40, 13]"
    by (simp_all add: five_rfm_def scored_def)
  ultimately show ?thesis using five_metrics_run five_customers_run by blast
qed

text \<open>
  Customer \<open>a\<close> of \<open>rounding_customers\<close> has the prices \<open>2\<^sup>5\<^sup>3\<close> and 1: the monetary value
  returned is \<open>2\<^sup>5\<^sup>3\<close>, the sum of the prices is \<open>2\<^sup>5\<^sup>3 + 1\<close>.
\<close>

theorem monetary_is_rounded:
  "create_rfm_df group_sum rounding_customers = Inr (rounding_rfm, rounding_seg) \<and>
   customer (rounding_rfm ! 0) = ''a'' \<and>
   monetary (rounding_rfm ! 0) = 9007199254740992 \<and>
   sum_list (map price (filter (\<lambda>r. customer_unique_id r = ''a'') rounding_customers))
     = 9007199254740993"
  using rounding_customers_run
  by (simp add: rounding_rfm_def scored_def rounding_customers_def order_on_day_def)




lemma agg_group_monetary:
  "agg_group psum d kg = Inr m \<Longrightarrow> monetary m = psum (map price (snd kg))"
  by (auto simp: agg_group_def split: sum.splits)

lemma rfm_metrics_monetary:
  assumes "rfm_metrics psum d df = Inr ms"
  shows "map monetary ms = map (\<lambda>kg. psum (map price (snd kg))) (groupby customer_unique_id df)"
proof (rule nth_equalityI)
  note eq = rfm_metrics_Inr(1) [OF assms]
  have len: "length (groupby customer_unique_id df) = length ms"
    using eq map_eq_imp_length_eq by fastforce
  show "length (map monetary ms)
      = length (map (\<lambda>kg. psum (map price (snd kg))) (groupby customer_unique_id df))"
    using len by simp
  fix i assume "i < length (map monetary ms)"
  then have i: "i < length ms" by simp
  have "map (agg_group psum d) (groupby customer_unique_id df) ! i = map Inr ms ! i"
    by (simp only: eq)
  then have "agg_group psum d (groupby customer_unique_id df ! i) = Inr (ms ! i)"
    using i len by simp
  then have "monetary (ms ! i) = psum (map price (snd (groupby customer_unique_id df ! i)))"
    by (rule agg_group_monetary)
  then show "map monetary ms ! i
      = map (\<lambda>kg. psum (map price (snd kg))) (groupby customer_unique_id df) ! i"
    using i len by simp
qed

lemma exact_groups_sum:
  assumes "exact_groups psum key val rows"
  shows "sum_list (map (\<lambda>kg. psum (map val (snd kg))) (groupby key rows)) = sum_list (map val rows)"
proof -
  have "map (\<lambda>kg. psum (map val (snd kg))) (groupby key rows)
      = map (\<lambda>kg. sum_list (map val (snd kg))) (groupby key rows)"
    using assms unfolding exact_groups_def list_all_iff by (intro map_cong) simp_all
  then show ?thesis by (simp only: sum_list_groupby)
qed

text \<open>
  C2. When \<open>create_rfm_df\<close> returns and none of its group sums is rounded (the sum of
  each customer's prices and the sum of each segment's monetary values are exact), the
  monetary values of the segment revenue table sum to the sum of the prices of all input
  rows.
\<close>

theorem revenue_conservation:
  assumes "create_rfm_df psum df = Inr (rfm, seg)"
    and "exact_groups psum customer_unique_id price df"
    and "exact_groups psum customers_type monetary rfm"
  shows "sum_list (map seg_monetary seg) = sum_list (map price df)"
proof -
  from assms(1) have seg: "seg = revenue_per_type psum rfm" by (rule create_rfm_df_Inr)
  from assms(1) obtain ms where
    ms: "rfm_metrics psum (Max (order_purchase_timestamp ` set df) + Timedelta_days 1) df = Inr ms"
    and mon: "map monetary rfm = map monetary ms"
    by (rule create_rfm_df_metrics)
  have "sum_list (map seg_monetary seg)
      = sum_list (map (\<lambda>kg. psum (map monetary (snd kg))) (groupby customers_type rfm))"
    by (simp add: seg revenue_per_type_def o_def)
  also have "\<dots> = sum_list (map monetary rfm)" by (rule exact_groups_sum [OF assms(3)])
  also have "\<dots> = sum_list (map (\<lambda>kg. psum (map price (snd kg))) (groupby customer_unique_id df))"
    unfolding mon rfm_metrics_monetary [OF ms] ..
  also have "\<dots> = sum_list (map price df)" by (rule exact_groups_sum [OF assms(2)])
  finally show ?thesis .
qed

theorem revenue_conservation_witness:
  "create_rfm_df group_sum five_customers = Inr (five_rfm, five_seg) \<and>
   exact_groups group_sum customer_unique_id price five_customers \<and>
   exact_groups group_sum customers_type monetary five_rfm \<and>
   sum_list (map seg_monetary five_seg) = 113 \<and> sum_list (map price five_customers) = 113"
proof -
  have s: "group_sum [10] = 10" "group_sum [20] = 20" "group_sum [30] = 30" "group_sum [40] = 40"
    "group_sum [5, 7, 1] = 13" "group_sum [40, 13] = 53"
    by (rule group_sum_eval [of "[10]"], simp_all)
       (rule group_sum_eval [of "[20]"], simp_all,
        rule group_sum_eval [of "[30]"], simp_all,
        rule group_sum_eval [of "[40]"], simp_all,
        rule group_sum_eval [of "[5, 7, 1]"], simp_all,
        rule group_sum_eval [of "[40, 13]"], simp_all)
  have g1: "groupby customer_unique_id five_customers =
      [(''a'', [order_on_day ''a'' ''o1'' 1 10]), (''b'', [order_on_day ''b'' ''o2'' 2 20]),
       (''c'', [order_on_day ''c'' ''o3'' 3 30]), (''d'', [order_on_day ''d'' ''o4'' 4 40]),
       (''e'', [order_on_day ''e'' ''o5'' 5 5, order_on_day ''e'' ''o5'' 5 7,
                order_on_day ''e'' ''o6'' 3 1])]"
    by code_simp
  have e1: "exact_groups group_sum customer_unique_id price five_customers"
    unfolding exact_groups_def g1 by (simp add: order_on_day_def s)
  have g2: "groupby customers_type five_rfm =
      [(''Champions'', [scored ''d'' 2 1 40 4 4 ''44'' ''Champions'',
                        scored ''e'' 1 2 13 5 5 ''55'' ''Champions'']),
       (''Hibernating'', [scored ''b'' 4 1 20 2 2 ''22'' ''Hibernating'']),
       (''Lost'', [scored ''a'' 5 1 10 1 1 ''11'' ''Lost'']),
       (''Potential loyalist'', [scored ''c'' 3 1 30 3 3 ''33'' ''Potential loyalist''])]"
    by code_simp
  have e2: "exact_groups group_sum customers_type monetary five_rfm"
    unfolding exact_groups_def g2 by (simp add: scored_def s)
  have p: "sum_list (map price five_customers) = 113"
    by (simp add: five_customers_def order_on_day_def)
  from revenue_conservation [OF five_customers_run e1 e2] five_customers_run e1 e2 p
  show ?thesis by simp
qed

text \<open>
  The segment revenue table of \<open>rounding_customers\<close> sums to \<open>2\<^sup>5\<^sup>3 + 4\<close>, the prices of its
  rows to \<open>2\<^sup>5\<^sup>3 + 5\<close>.
\<close>

theorem revenue_is_rounded:
  "create_rfm_df group_sum rounding_customers = Inr (rounding_rfm, rounding_seg) \<and>
   sum_list (map seg_monetary rounding_seg) = 9007199254740996 \<and>
   sum_list (map price rounding_customers) = 9007199254740997"
  using rounding_customers_run
  by (simp add: rounding_seg_def segment_def rounding_customers_def order_on_day_def)

section \<open>Scores of a successful run\<close>

lemma quantiles_nth:
  "quantiles 5 ! 0 = 0" "quantiles 5 ! 5 = 1" "length (quantiles 5) = 6"
  by (simp_all add: quantiles_5)

lemma quantile_0:
  assumes "fl (sort x ! 0) = sort x ! 0"
  shows "quantile x 0 = sort x ! 0"
proof (cases "fl (of_nat (length x - 1)) \<le> 0")
  case True
  have "fl (of_nat (length x - 1)) = 0"
    using True fl_nonneg [of "of_nat (length x - 1)"] by simp
  then have "length x - 1 = 0"
    using fl_pos [of "of_nat (length x - 1)"] by (cases "length x - 1 = 0") auto
  then show ?thesis using True by (simp add: quantile_def fl_0)
next
  case False
  then show ?thesis using assms by (simp add: quantile_def lerp_def fl_0 Let_def)
qed

lemma quantile_1: "quantile x 1 = sort x ! (length x - 1)"
proof -
  have "fl (fl (of_nat (length x - 1))) = fl (of_nat (length x - 1))"
    by (rule fl_idem) simp
  then show ?thesis by (simp add: quantile_def Let_def)
qed

lemma sort_bounds:
  assumes "v \<in> set x"
  shows "sort x ! 0 \<le> v" and "v \<le> sort x ! (length x - 1)"
proof -
  from assms have "v \<in> set (sort x)" by simp
  then obtain i where i: "i < length (sort x)" "sort x ! i = v"
    unfolding in_set_conv_nth by blast
  have s: "sorted (sort x)" by simp
  show "sort x ! 0 \<le> v" using sorted_nth_mono [OF s, of 0 i] i by simp
  show "v \<le> sort x ! (length x - 1)"
    using sorted_nth_mono [OF s, of i "length x - 1"] i by simp
qed

lemma length_filter_mono:
  "(\<And>y. y \<in> set xs \<Longrightarrow> P y \<Longrightarrow> Q y) \<Longrightarrow> length (filter P xs) \<le> length (filter Q xs)"
  by (induction xs) auto

lemma hd_bins:
  assumes "fl (sort x ! 0) = sort x ! 0"
  shows "hd (bin_edges x 5) = sort x ! 0"
  by (simp add: bin_edges_5 quantile_0 [OF assms])

lemma bins_nonempty: "bin_edges x 5 \<noteq> []"
  by (simp add: bin_edges_5)

lemma last_bin: "bin_edges x 5 ! 5 = sort x ! (length x - 1)"
  by (simp add: bin_edges_5 quantile_1)

lemma cut_id_range:
  assumes "v \<in> set x" and "fl (sort x ! 0) = sort x ! 0"
  shows "1 \<le> cut_id (bin_edges x 5) v"
    and "cut_id (bin_edges x 5) v \<le> 5"
proof -
  let ?bins = "bin_edges x 5"
  have lo: "sort x ! 0 \<le> v" and hi: "v \<le> sort x ! (length x - 1)"
    using sort_bounds [OF assms(1)] .
  have hd: "hd ?bins = sort x ! 0" by (rule hd_bins [OF assms(2)])
  show "1 \<le> cut_id ?bins v"
  proof (cases "v = hd ?bins")
    case True
    then show ?thesis by (simp add: cut_id_def)
  next
    case False
    with lo hd have "sort x ! 0 < v" by simp
    then have "1 \<le> searchsorted_left ?bins v"
      by (simp add: searchsorted_left_def bin_edges_5 quantile_0 [OF assms(2)])
    with False show ?thesis by (simp add: cut_id_def)
  qed
  have "\<not> quantile x 1 < v" using hi by (simp add: quantile_1)
  then have "searchsorted_left ?bins v \<le> 5"
    by (simp add: searchsorted_left_def bin_edges_5)
  then show "cut_id ?bins v \<le> 5" by (simp add: cut_id_def)
qed

lemma cut_id_mono:
  assumes "hd bins \<le> v" and "v \<le> w" and "bins \<noteq> []"
  shows "cut_id bins v \<le> cut_id bins w"
proof (cases "v = hd bins")
  case True
  show ?thesis
  proof (cases "w = hd bins")
    case True
    with \<open>v = hd bins\<close> show ?thesis by simp
  next
    case False
    with assms True have "hd bins < w" by simp
    moreover have "hd bins \<in> set bins" using assms(3) by simp
    ultimately have "filter (\<lambda>b. b < w) bins \<noteq> []"
      by (auto simp: filter_empty_conv)
    then have "1 \<le> length (filter (\<lambda>b. b < w) bins)"
      by (simp add: Suc_le_eq)
    with True False show ?thesis by (simp add: cut_id_def searchsorted_left_def)
  qed
next
  case False
  with assms have "w \<noteq> hd bins" by auto
  moreover have "length (filter (\<lambda>b. b < v) bins) \<le> length (filter (\<lambda>b. b < w) bins)"
    using assms(2) by (intro length_filter_mono) auto
  ultimately show ?thesis using False by (simp add: cut_id_def searchsorted_left_def)
qed

lemma qcut_score:
  assumes "qcut x 5 labels = Inr ss" and "i < length x" and "fl (sort x ! 0) = sort x ! 0"
  shows "ss ! i = Some (labels ! (cut_id (bin_edges x 5) (x ! i) - 1))"
    and "1 \<le> cut_id (bin_edges x 5) (x ! i)"
    and "cut_id (bin_edges x 5) (x ! i) \<le> 5"
proof -
  let ?k = "cut_id (bin_edges x 5) (x ! i)"
  have v: "x ! i \<in> set x" using assms(2) by simp
  show k1: "1 \<le> ?k" and k5: "?k \<le> 5" using cut_id_range [OF v assms(3)] .
  have "ss ! i = take_label labels 6 ?k"
    using qcut_Inr(4) [OF assms(1)] assms(2) by simp
  also have "\<dots> = Some (labels ! (?k - 1))"
    using k1 k5 qcut_Inr(3) [OF assms(1)] by (simp add: take_label_def)
  finally show "ss ! i = Some (labels ! (?k - 1))" .
qed

section \<open>Ranks\<close>

lemma length_filter_less_eq:
  "length (filter (\<lambda>y. y < a) xs) + length (filter (\<lambda>y. y = a) xs)
     = length (filter (\<lambda>y. y \<le> (a::'a::linorder)) xs)"
  by (induction xs) auto

lemma length_filter_take: "length (filter P (take i xs)) \<le> length (filter P xs)"
proof -
  have "length (filter P xs) = length (filter P (take i xs @ drop i xs))" by simp
  also have "\<dots> = length (filter P (take i xs)) + length (filter P (drop i xs))"
    by (simp only: filter_append length_append)
  finally show ?thesis by simp
qed

lemma rank_first_nth:
  "i < length xs \<Longrightarrow>
     rank_first xs ! i = length (filter (\<lambda>y. y < xs ! i) xs)
                        + length (filter (\<lambda>y. y = xs ! i) (take i xs)) + 1"
  by (simp add: rank_first_def)

lemma filter_eq_take_less:
  assumes "i < j" and "j \<le> length xs" and "xs ! i = a"
  shows "length (filter (\<lambda>y. y = a) (take i xs)) < length (filter (\<lambda>y. y = a) (take j xs))"
proof -
  define D where "D = drop (Suc i) (take j xs)"
  have i: "i < length (take j xs)" using assms(1,2) by simp
  have "take j xs = take i (take j xs) @ (take j xs) ! i # drop (Suc i) (take j xs)"
    by (rule id_take_nth_drop [OF i])
  also have "take i (take j xs) = take i xs" using assms(1) by (simp add: min_def)
  also have "(take j xs) ! i = a" using assms(1,3) by simp
  finally have eq: "take j xs = take i xs @ a # D" unfolding D_def .
  have "length (filter (\<lambda>y. y = a) (take j xs))
      = length (filter (\<lambda>y. y = a) (take i xs @ a # D))"
    by (simp only: eq)
  then show ?thesis by simp
qed

lemma rank_first_le_count:
  assumes "i < length xs"
  shows "rank_first xs ! i \<le> length (filter (\<lambda>y. y \<le> xs ! i) xs)"
proof -
  have "length (filter (\<lambda>y. y = xs ! i) (take i xs)) < length (filter (\<lambda>y. y = xs ! i) (take (length xs) xs))"
    using assms by (intro filter_eq_take_less) simp_all
  then have "length (filter (\<lambda>y. y < xs ! i) xs) + length (filter (\<lambda>y. y = xs ! i) (take i xs)) + 1
      \<le> length (filter (\<lambda>y. y < xs ! i) xs) + length (filter (\<lambda>y. y = xs ! i) xs)"
    by simp
  also have "\<dots> = length (filter (\<lambda>y. y \<le> xs ! i) xs)" by (rule length_filter_less_eq)
  finally show ?thesis using assms by (simp add: rank_first_nth)
qed

lemma rank_first_less_of_less:
  assumes "i < length xs" and "j < length xs" and "xs ! i < xs ! j"
  shows "rank_first xs ! i < rank_first xs ! j"
proof -
  have "rank_first xs ! i \<le> length (filter (\<lambda>y. y \<le> xs ! i) xs)"
    by (rule rank_first_le_count [OF assms(1)])
  also have "\<dots> \<le> length (filter (\<lambda>y. y < xs ! j) xs)"
    using assms(3) by (intro length_filter_mono) auto
  finally show ?thesis using assms(2) by (simp add: rank_first_nth)
qed

lemma rank_first_less_of_tie:
  assumes "i < j" and "j < length xs" and "xs ! i = xs ! j"
  shows "rank_first xs ! i < rank_first xs ! j"
proof -
  have "length (filter (\<lambda>y. y = xs ! i) (take i xs)) < length (filter (\<lambda>y. y = xs ! i) (take j xs))"
    using assms(1,2) by (intro filter_eq_take_less) simp_all
  then show ?thesis using assms by (simp add: rank_first_nth)
qed

lemma rank_first_inj:
  assumes "i < length xs" and "j < length xs" and "rank_first xs ! i = rank_first xs ! j"
  shows "i = j"
proof (rule ccontr)
  assume ne: "i \<noteq> j"
  consider "xs ! i < xs ! j" | "xs ! j < xs ! i" | "xs ! i = xs ! j" "i < j" | "xs ! i = xs ! j" "j < i"
    using ne by (metis linorder_neqE_nat not_less_iff_gr_or_eq)
  then show False
  proof cases
    case 1
    from rank_first_less_of_less [OF assms(1,2) 1] assms(3) show False by simp
  next
    case 2
    from rank_first_less_of_less [OF assms(2,1) 2] assms(3) show False by simp
  next
    case 3
    from rank_first_less_of_tie [OF 3(2) assms(2) 3(1)] assms(3) show False by simp
  next
    case 4
    from rank_first_less_of_tie [OF 4(2) assms(1) 4(1) [symmetric]] assms(3) show False by simp
  qed
qed

lemma distinct_rank_first: "distinct (rank_first xs)"
  unfolding distinct_conv_nth
proof (intro allI impI)
  fix i j
  assume "i < length (rank_first xs)" "j < length (rank_first xs)" "i \<noteq> j"
  then show "rank_first xs ! i \<noteq> rank_first xs ! j"
    using rank_first_inj [of i xs j] by (simp add: length_rank_first) blast
qed

lemma rank_first_range:
  assumes "r \<in> set (rank_first xs)"
  shows "1 \<le> r" and "r \<le> length xs"
proof -
  from assms obtain i where i: "i < length xs" "r = rank_first xs ! i"
    by (auto simp: in_set_conv_nth length_rank_first)
  show "1 \<le> r" using i by (simp add: rank_first_nth)
  have "r \<le> length (filter (\<lambda>y. y \<le> xs ! i) xs)"
    unfolding i(2) by (rule rank_first_le_count [OF i(1)])
  also have "\<dots> \<le> length xs" by (rule length_filter_le)
  finally show "r \<le> length xs" .
qed

lemma set_rank_first: "set (rank_first xs) = {1..length xs}"
proof (rule card_subset_eq)
  show "finite {1..length xs}" by simp
  show "set (rank_first xs) \<subseteq> {1..length xs}" using rank_first_range by auto
  have "card (set (rank_first xs)) = length (rank_first xs)"
    by (rule distinct_card [OF distinct_rank_first])
  then show "card (set (rank_first xs)) = card {1..length xs}"
    by (simp add: length_rank_first)
qed

lemma sort_rank_first: "sort (rank_first xs) = [1..<Suc (length xs)]"
proof (rule sorted_distinct_set_unique)
  show "sorted (sort (rank_first xs))" by simp
  show "distinct (sort (rank_first xs))" by (simp add: distinct_rank_first)
  show "sorted [1..<Suc (length xs)]" by (rule sorted_upt)
  show "distinct [1..<Suc (length xs)]" by (rule distinct_upt)
  show "set (sort (rank_first xs)) = set [1..<Suc (length xs)]"
    by (auto simp: set_rank_first)
qed

lemma sort_rank_column:
  "sort (map rat_of_nat (rank_first xs)) = map of_nat [1..<Suc (length xs)]"
proof (rule sorted_distinct_set_unique)
  show "sorted (sort (map rat_of_nat (rank_first xs)))" by simp
  show "distinct (sort (map rat_of_nat (rank_first xs)))"
    by (simp add: distinct_map distinct_rank_first inj_on_def)
  show "sorted (map rat_of_nat [1..<Suc (length xs)])"
    by (simp add: sorted_map sorted_wrt_mono_rel [OF _ sorted_upt] del: upt_Suc)
  show "distinct (map rat_of_nat [1..<Suc (length xs)])"
    by (simp add: distinct_map inj_on_def del: upt_Suc)
  show "set (sort (map rat_of_nat (rank_first xs))) = set (map rat_of_nat [1..<Suc (length xs)])"
    by (auto simp: set_rank_first simp del: upt_Suc)
qed

lemma distinct_rank_column: "distinct (map rat_of_nat (rank_first xs))"
  by (simp add: distinct_map distinct_rank_first inj_on_def)

lemma rank_column_first:
  assumes "xs \<noteq> []"
  shows "sort (map rat_of_nat (rank_first xs)) ! 0 = 1"
  using assms unfolding sort_rank_column by (simp add: upt_rec del: upt_Suc)

section \<open>The two score columns\<close>

lemma rfm_metrics_recency_range:
  assumes d: "max_date df = Inr (Some d)" and ms: "rfm_metrics psum d df = Inr ms"
    and m: "m \<in> set ms"
  shows "1 \<le> recency m" and "recency m \<le> 106751"
proof -
  define rows where "rows = filter (\<lambda>r. customer_unique_id r = customer m) df"
  note R = rfm_metrics_row [OF ms m, folded rows_def]
  have sub: "set (map order_purchase_timestamp rows) \<subseteq> order_purchase_timestamp ` set df"
    unfolding rows_def by auto
  have ne: "set (map order_purchase_timestamp rows) \<noteq> {}" using R(1) by simp
  have "Max (set (map order_purchase_timestamp rows)) \<le> Max (order_purchase_timestamp ` set df)"
    using ne sub by (intro Max_mono) auto
  then have "86400000000000 \<le> d - Max (set (map order_purchase_timestamp rows))"
    unfolding max_date_SomeD(2) [OF d] Timedelta_days_def by simp
  then show "1 \<le> recency m" unfolding R(2) by (rule days_ge_1)
  show "recency m \<le> 106751" unfolding R(2) using R(3) by (rule days_le)
qed

lemma fl_recency: "1 \<le> r \<Longrightarrow> r \<le> 106751 \<Longrightarrow> fl (of_int r) = of_int r"
  by (rule fl_of_int) simp_all

lemma recency_column_first:
  assumes d: "max_date df = Inr (Some d)" and ms: "rfm_metrics psum d df = Inr ms"
    and ne: "ms \<noteq> []"
  defines "rx \<equiv> map (\<lambda>r. rat_of_int (recency r)) ms"
  shows "fl (sort rx ! 0) = sort rx ! 0"
proof -
  have "sort rx ! 0 \<in> set (sort rx)" using ne by (intro nth_mem) (simp add: rx_def)
  then have "sort rx ! 0 \<in> set rx" by simp
  then obtain m where m: "m \<in> set ms" and e: "sort rx ! 0 = of_int (recency m)"
    unfolding rx_def by auto
  show ?thesis unfolding e
    by (rule fl_recency [OF rfm_metrics_recency_range [OF d ms m]])
qed

lemma rank_column_first_fl:
  assumes "xs \<noteq> []"
  shows "fl (sort (map rat_of_nat (rank_first xs)) ! 0) = sort (map rat_of_nat (rank_first xs)) ! 0"
  unfolding rank_column_first [OF assms] using fl_of_int [of 1] by simp

lemma r_label: "1 \<le> k \<Longrightarrow> k \<le> 5 \<Longrightarrow> [5, 4, 3, 2, 1 :: nat] ! (k - 1) = 6 - k"
proof -
  assume "1 \<le> k" "k \<le> 5"
  then have "k = 1 \<or> k = 2 \<or> k = 3 \<or> k = 4 \<or> k = 5" by arith
  then show ?thesis by auto
qed

lemma f_label: "1 \<le> k \<Longrightarrow> k \<le> 5 \<Longrightarrow> [1, 2, 3, 4, 5 :: nat] ! (k - 1) = k"
proof -
  assume "1 \<le> k" "k \<le> 5"
  then have "k = 1 \<or> k = 2 \<or> k = 3 \<or> k = 4 \<or> k = 5" by arith
  then show ?thesis by auto
qed

text \<open>
  What a successful run computed: the two columns that were cut, that their smallest
  values are float64 numbers, the scores, and the rows of the result.
\<close>

lemma run_columns:
  assumes ok: "create_rfm_df psum df = Inr (rfm, seg)"
  defines "rx \<equiv> map (\<lambda>r. rat_of_int (recency r)) rfm"
    and "fx \<equiv> map rat_of_nat (rank_first (map frequency rfm))"
  shows "qcut rx 5 [5, 4, 3, 2, 1] = Inr (map r_score rfm)"
    and "qcut fx 5 [1, 2, 3, 4, 5] = Inr (map f_score rfm)"
    and "fl (sort rx ! 0) = sort rx ! 0"
    and "fl (sort fx ! 0) = sort fx ! 0"
    and "length rx = length rfm" and "length fx = length rfm"
    and "\<forall>c\<in>set rfm. 1 \<le> recency c \<and> recency c \<le> 106751"
    and "\<forall>c\<in>set rfm. rf_score c = rf_code (r_score c) (f_score c) \<and>
                        customers_type c = replace_regex seg_map (rf_score c)"
proof -
  from ok obtain d ms rs fs where
    d: "max_date df = Inr (Some d)"
    and ms: "rfm_metrics psum d df = Inr ms"
    and rs: "qcut (map (\<lambda>r. of_int (recency r)) ms) 5 [5, 4, 3, 2, 1] = Inr rs"
    and fs: "qcut (map of_nat (rank_first (map frequency ms))) 5 [1, 2, 3, 4, 5] = Inr fs"
    and rfm: "rfm = map2 add_scores ms (zip rs fs)"
    by (rule create_rfm_df_Inr)
  note len = scored_rows(1,2) [OF rs fs]
  have lr: "length rfm = length ms" using len by (simp add: rfm)
  have row: "rfm ! i = add_scores (ms ! i) (rs ! i, fs ! i)" if "i < length ms" for i
    using scored_rows(4) [OF rs fs that] by (simp add: rfm)
  have er: "map recency rfm = map recency ms"
    unfolding rfm by (rule map2_add_scores_metrics(2) [OF len])
  have "rx = map rat_of_int (map recency rfm)" unfolding rx_def by simp
  also have "\<dots> = map rat_of_int (map recency ms)" by (simp only: er)
  finally have rx: "rx = map (\<lambda>r. of_int (recency r)) ms" by simp
  have ef: "map frequency rfm = map frequency ms"
    unfolding rfm by (rule map2_add_scores_metrics(3) [OF len])
  have fx: "fx = map of_nat (rank_first (map frequency ms))" unfolding fx_def ef ..
  have r: "map r_score rfm = rs"
    using len lr by (intro nth_equalityI) (simp_all add: row add_scores_def)
  have f: "map f_score rfm = fs"
    using len lr by (intro nth_equalityI) (simp_all add: row add_scores_def)
  have ne: "ms \<noteq> []" using qcut_Inr(1) [OF rs] by auto
  show "qcut rx 5 [5, 4, 3, 2, 1] = Inr (map r_score rfm)" unfolding rx r by (rule rs)
  show "qcut fx 5 [1, 2, 3, 4, 5] = Inr (map f_score rfm)" unfolding fx f by (rule fs)
  show "fl (sort rx ! 0) = sort rx ! 0"
    unfolding rx by (rule recency_column_first [OF d ms ne])
  show "fl (sort fx ! 0) = sort fx ! 0"
    unfolding fx by (rule rank_column_first_fl) (use ne in simp)
  show "length rx = length rfm" by (simp add: rx_def)
  show "length fx = length rfm" by (simp add: fx_def length_rank_first)
  show "\<forall>c\<in>set rfm. 1 \<le> recency c \<and> recency c \<le> 106751"
  proof
    fix c assume "c \<in> set rfm"
    then have "recency c \<in> set (map recency rfm)" by simp
    then have "recency c \<in> set (map recency ms)" by (simp only: er)
    then obtain m where m: "m \<in> set ms" "recency c = recency m" by auto
    from rfm_metrics_recency_range [OF d ms m(1)]
    show "1 \<le> recency c \<and> recency c \<le> 106751" unfolding m(2) by simp
  qed
  show "\<forall>c\<in>set rfm. rf_score c = rf_code (r_score c) (f_score c) \<and>
                        customers_type c = replace_regex seg_map (rf_score c)"
  proof
    fix c assume "c \<in> set rfm"
    then obtain i where i: "i < length rfm" "c = rfm ! i" by (auto simp: in_set_conv_nth)
    have "i < length ms" using i lr by simp
    from row [OF this] show "rf_score c = rf_code (r_score c) (f_score c) \<and>
                        customers_type c = replace_regex seg_map (rf_score c)"
      unfolding i(2) by (simp add: add_scores_def)
  qed
qed

lemma scores_of_rows:
  assumes ok: "create_rfm_df psum df = Inr (rfm, seg)" and i: "i < length rfm"
  defines "rx \<equiv> map (\<lambda>r. rat_of_int (recency r)) rfm"
    and "fx \<equiv> map rat_of_nat (rank_first (map frequency rfm))"
  shows "r_score (rfm ! i) = Some (6 - cut_id (bin_edges rx 5) (rx ! i))"
    and "f_score (rfm ! i) = Some (cut_id (bin_edges fx 5) (fx ! i))"
    and "1 \<le> cut_id (bin_edges rx 5) (rx ! i)"
    and "cut_id (bin_edges rx 5) (rx ! i) \<le> 5"
    and "1 \<le> cut_id (bin_edges fx 5) (fx ! i)"
    and "cut_id (bin_edges fx 5) (fx ! i) \<le> 5"
proof -
  note C = run_columns [OF ok, folded rx_def fx_def]
  have ix: "i < length rx" "i < length fx" using i C(5,6) by simp_all
  note R = qcut_score [OF C(1) ix(1) C(3)]
  note F = qcut_score [OF C(2) ix(2) C(4)]
  show "1 \<le> cut_id (bin_edges rx 5) (rx ! i)" by (rule R(2))
  show "cut_id (bin_edges rx 5) (rx ! i) \<le> 5" by (rule R(3))
  show "1 \<le> cut_id (bin_edges fx 5) (fx ! i)" by (rule F(2))
  show "cut_id (bin_edges fx 5) (fx ! i) \<le> 5" by (rule F(3))
  show "r_score (rfm ! i) = Some (6 - cut_id (bin_edges rx 5) (rx ! i))"
    using R(1) r_label [OF R(2) R(3)] i by simp
  show "f_score (rfm ! i) = Some (cut_id (bin_edges fx 5) (fx ! i))"
    using F(1) f_label [OF F(2) F(3)] i by simp
qed

section \<open>Interpolation between whole numbers\<close>

lemma wholeE:
  assumes "whole v"
  obtains A where "v = of_int A" "0 \<le> A" "A \<le> 2 ^ 50"
proof
  show "v = of_int \<lfloor>v\<rfloor>" using assms by (simp add: whole_def)
  show "0 \<le> \<lfloor>v\<rfloor>" using assms by (simp add: whole_def)
  have "v \<le> of_int (2 ^ 50)" using assms by (simp add: whole_def)
  then show "\<lfloor>v\<rfloor> \<le> 2 ^ 50" by (rule floor_le_iff [THEN iffD2, OF order.strict_trans1, simplified]) simp
qed

lemma whole_of_int: "0 \<le> A \<Longrightarrow> A \<le> 2 ^ 50 \<Longrightarrow> whole (of_int A)"
  by (simp add: whole_def)

lemma whole_of_nat: "n \<le> 2 ^ 50 \<Longrightarrow> whole (of_nat n)"
  using whole_of_int [of "int n"] by simp

lemma powi_m1: "(2::rat) powi (- 1) = 1 / 2"
  by (simp add: power_int_minus)

lemma powi_m3: "(2::rat) powi (- 3) = 1 / 8"
  by (simp add: power_int_minus)

lemma fl_over_2:
  assumes "0 \<le> m" "m \<le> 2 ^ 53"
  shows "fl (of_int m / 2) = of_int m / 2"
proof -
  have "fl (of_int m * 2 powi (- 1)) = of_int m * 2 powi (- 1)" using assms by (rule fl_dyadic)
  then show ?thesis unfolding powi_m1 by simp
qed

lemma fl_over_8:
  assumes "0 \<le> m" "m \<le> 2 ^ 53"
  shows "fl (of_int m / 8) = of_int m / 8"
proof -
  have "fl (of_int m * 2 powi (- 3)) = of_int m * 2 powi (- 3)" using assms by (rule fl_dyadic)
  then show ?thesis unfolding powi_m3 by simp
qed

lemma fl_whole: "whole v \<Longrightarrow> fl v = v"
  by (erule wholeE) (simp add: fl_of_int)

lemma fl_half: "fl (1 / 2) = 1 / 2"
  using fl_over_2 [of 1] by simp

lemma fl_eighth: "fl (1 / 8) = 1 / 8"
  using fl_over_8 [of 1] by simp

lemma fl_1: "fl 1 = 1"
  using fl_of_int [of 1] by simp

lemma lerp_low:
  assumes a: "whole a" and b: "whole b" and ab: "a \<le> b" and t0: "0 \<le> t" and t: "t < 1 / 2"
  shows "a \<le> lerp a b t" and "lerp a b t \<le> a + (b - a) / 2"
proof -
  from a obtain A where A: "a = of_int A" "0 \<le> A" "A \<le> 2 ^ 50" by (rule wholeE)
  from b obtain B where B: "b = of_int B" "0 \<le> B" "B \<le> 2 ^ 50" by (rule wholeE)
  define D where "D = B - A"
  have AB: "A \<le> B" using ab unfolding A(1) B(1) by simp
  have D: "0 \<le> D" "D \<le> 2 ^ 50" using AB A(2) B(3) unfolding D_def by simp_all
  have ba: "b - a = of_int D" unfolding A(1) B(1) D_def by simp
  have bD: "b = of_int (A + D)" unfolding B(1) D_def by simp
  have d: "fl (b - a) = of_int D" unfolding ba using D by (intro fl_of_int) simp_all
  have e: "lerp a b t = fl (a + fl (of_int D * t))" using t by (simp add: lerp_def d)
  have w0: "0 \<le> fl (of_int D * t)" using D(1) t0 by (intro fl_nonneg) simp
  have a0: "0 \<le> a" unfolding A(1) using A(2) by simp
  have "fl a \<le> fl (a + fl (of_int D * t))" using a0 w0 by (intro fl_mono) simp_all
  then show "a \<le> lerp a b t" unfolding e fl_whole [OF a] .
  have "of_int D * t \<le> of_int D * (1 / 2)" using D(1) t by (intro mult_left_mono) simp_all
  then have "of_int D * t \<le> of_int D / 2" by simp
  moreover have "0 \<le> of_int D * t" using D(1) t0 by simp
  ultimately have "fl (of_int D * t) \<le> fl (of_int D / 2)" by (intro fl_mono)
  also have "\<dots> = of_int D / 2" using D by (intro fl_over_2) simp_all
  finally have w: "fl (of_int D * t) \<le> of_int D / 2" .
  have "fl (a + fl (of_int D * t)) \<le> fl (a + of_int D / 2)"
    using a0 w0 w by (intro fl_mono) simp_all
  also have "a + of_int D / 2 = of_int (2 * A + D) / 2" unfolding A(1) by simp
  also have "fl (of_int (2 * A + D) / 2) = of_int (2 * A + D) / 2"
    using A(2,3) D by (intro fl_over_2) simp_all
  also have "of_int (2 * A + D) / 2 = a + (b - a) / 2" unfolding bD A(1) by simp
  finally show "lerp a b t \<le> a + (b - a) / 2" unfolding e .
qed

lemma lerp_high:
  assumes a: "whole a" and b: "whole b" and ab: "a \<le> b" and t: "1 / 2 \<le> t" and t1: "t \<le> 1"
  shows "a + (b - a) / 2 \<le> lerp a b t" and "lerp a b t \<le> b"
    and "t \<le> 7 / 8 \<Longrightarrow> lerp a b t \<le> b - (b - a) / 8"
proof -
  from a obtain A where A: "a = of_int A" "0 \<le> A" "A \<le> 2 ^ 50" by (rule wholeE)
  from b obtain B where B: "b = of_int B" "0 \<le> B" "B \<le> 2 ^ 50" by (rule wholeE)
  define D where "D = B - A"
  have AB: "A \<le> B" using ab unfolding A(1) B(1) by simp
  have D: "0 \<le> D" "D \<le> 2 ^ 50" using AB A(2) B(3) unfolding D_def by simp_all
  have ba: "b - a = of_int D" unfolding A(1) B(1) D_def by simp
  have bD: "b = of_int (A + D)" unfolding B(1) D_def by simp
  have d: "fl (b - a) = of_int D" unfolding ba using D by (intro fl_of_int) simp_all
  define u where "u = fl (1 - t)"
  define w where "w = fl (of_int D * u)"
  have e: "lerp a b t = fl (b - w)" using t by (simp add: lerp_def d u_def w_def)
  have u0: "0 \<le> u" unfolding u_def using t1 by (intro fl_nonneg) simp
  have "fl (1 - t) \<le> fl (1 / 2)" using t t1 by (intro fl_mono) simp_all
  then have u1: "u \<le> 1 / 2" unfolding u_def fl_half .
  have w0: "0 \<le> w" unfolding w_def using D(1) u0 by (intro fl_nonneg) simp
  have "of_int D * u \<le> of_int D * (1 / 2)" using D(1) u1 by (intro mult_left_mono) simp_all
  then have "of_int D * u \<le> of_int D / 2" by simp
  moreover have "0 \<le> of_int D * u" using D(1) u0 by simp
  ultimately have "fl (of_int D * u) \<le> fl (of_int D / 2)" by (intro fl_mono)
  also have "\<dots> = of_int D / 2" using D by (intro fl_over_2) simp_all
  finally have w1: "w \<le> of_int D / 2" unfolding w_def .
  have b0: "0 \<le> b" unfolding B(1) using B(2) by simp
  have mid: "a + (b - a) / 2 = of_int (2 * A + D) / 2" unfolding bD A(1) by simp
  have mid': "of_int (2 * A + D) / 2 = b - of_int D / 2" unfolding bD by (simp add: field_simps)
  have m0: "(0::rat) \<le> of_int (2 * A + D) / 2" using A(2) D(1) by simp
  have "fl (of_int (2 * A + D) / 2) \<le> fl (b - w)"
    using m0 w1 unfolding mid' by (intro fl_mono) simp_all
  also have "fl (of_int (2 * A + D) / 2) = of_int (2 * A + D) / 2"
    using A(2,3) D by (intro fl_over_2) simp_all
  finally show "a + (b - a) / 2 \<le> lerp a b t" unfolding e mid .
  have bw0: "0 \<le> b - w"
  proof -
    have "w \<le> of_int D" using w1 D(1) by simp
    also have "\<dots> \<le> b" unfolding B(1) D_def using A(2) by simp
    finally show ?thesis by simp
  qed
  have "fl (b - w) \<le> fl b" using bw0 w0 by (intro fl_mono) simp_all
  then show "lerp a b t \<le> b" unfolding e fl_whole [OF b] .
  show "lerp a b t \<le> b - (b - a) / 8" if t78: "t \<le> 7 / 8"
  proof -
    have "fl (1 / 8) \<le> fl (1 - t)" using t78 by (intro fl_mono) simp_all
    then have u8: "1 / 8 \<le> u" unfolding u_def fl_eighth .
    have "of_int D * (1 / 8) \<le> of_int D * u" using D(1) u8 by (intro mult_left_mono) simp_all
    then have "of_int D / 8 \<le> of_int D * u" by simp
    moreover have "(0::rat) \<le> of_int D / 8" using D(1) by simp
    ultimately have "fl (of_int D / 8) \<le> fl (of_int D * u)" by (intro fl_mono)
    moreover have "fl (of_int D / 8) = of_int D / 8" using D by (intro fl_over_8) simp_all
    ultimately have w8: "of_int D / 8 \<le> w" unfolding w_def by simp
    have "fl (b - w) \<le> fl (b - of_int D / 8)" using bw0 w8 by (intro fl_mono) simp_all
    also have "b - of_int D / 8 = of_int (8 * B - D) / 8" unfolding B(1) by simp
    also have "fl (of_int (8 * B - D) / 8) = of_int (8 * B - D) / 8"
      using A(2) B(2,3) D AB unfolding D_def by (intro fl_over_8) simp_all
    also have "of_int (8 * B - D) / 8 = b - (b - a) / 8" unfolding ba unfolding B(1) by simp
    finally show ?thesis unfolding e .
  qed
qed

lemma lerp_bounds:
  assumes "whole a" and "whole b" and "a \<le> b" and "0 \<le> t" and "t \<le> 1"
  shows "a \<le> lerp a b t" and "lerp a b t \<le> b"
proof -
  show "a \<le> lerp a b t"
  proof (cases "t < 1 / 2")
    case True
    then show ?thesis using assms by (intro lerp_low(1))
  next
    case False
    then have "a + (b - a) / 2 \<le> lerp a b t" using assms by (intro lerp_high(1)) simp_all
    with assms(3) show ?thesis by (simp add: field_simps)
  qed
  show "lerp a b t \<le> b"
  proof (cases "t < 1 / 2")
    case True
    then have "lerp a b t \<le> a + (b - a) / 2" using assms by (intro lerp_low(2))
    with assms(3) show ?thesis by (simp add: field_simps)
  next
    case False
    then show ?thesis using assms by (intro lerp_high(2)) simp_all
  qed
qed

lemma lerp_below:
  assumes "whole a" and "whole b" and "a < b" and "0 \<le> t" and "t \<le> 7 / 8"
  shows "lerp a b t < b"
proof (cases "t < 1 / 2")
  case True
  then have "lerp a b t \<le> a + (b - a) / 2" using assms by (intro lerp_low(2)) simp_all
  with assms(3) show ?thesis by (simp add: field_simps)
next
  case False
  then have "lerp a b t \<le> b - (b - a) / 8" using assms by (intro lerp_high(3)) simp_all
  with assms(3) show ?thesis by (simp add: field_simps)
qed

lemma lerp_above:
  assumes "whole a" and "whole b" and "a < b" and "1 / 2 \<le> t" and "t \<le> 1"
  shows "a < lerp a b t"
proof -
  have "a + (b - a) / 2 \<le> lerp a b t" using assms by (intro lerp_high(1)) simp_all
  with assms(3) show ?thesis by (simp add: field_simps)
qed

section \<open>Segment classification\<close>

lemma rf_codes:
  "rf_code (Some 1) (Some 1) = ''11''"
    "rf_code (Some 1) (Some 2) = ''12''"
    "rf_code (Some 1) (Some 3) = ''13''"
    "rf_code (Some 1) (Some 4) = ''14''"
    "rf_code (Some 1) (Some 5) = ''15''"
    "rf_code (Some 2) (Some 1) = ''21''"
    "rf_code (Some 2) (Some 2) = ''22''"
    "rf_code (Some 2) (Some 3) = ''23''"
    "rf_code (Some 2) (Some 4) = ''24''"
    "rf_code (Some 2) (Some 5) = ''25''"
    "rf_code (Some 3) (Some 1) = ''31''"
    "rf_code (Some 3) (Some 2) = ''32''"
    "rf_code (Some 3) (Some 3) = ''33''"
    "rf_code (Some 3) (Some 4) = ''34''"
    "rf_code (Some 3) (Some 5) = ''35''"
    "rf_code (Some 4) (Some 1) = ''41''"
    "rf_code (Some 4) (Some 2) = ''42''"
    "rf_code (Some 4) (Some 3) = ''43''"
    "rf_code (Some 4) (Some 4) = ''44''"
    "rf_code (Some 4) (Some 5) = ''45''"
    "rf_code (Some 5) (Some 1) = ''51''"
    "rf_code (Some 5) (Some 2) = ''52''"
    "rf_code (Some 5) (Some 3) = ''53''"
    "rf_code (Some 5) (Some 4) = ''54''"
    "rf_code (Some 5) (Some 5) = ''55''"
  by code_simp+

lemma replace_codes:
  "replace_regex seg_map ''11'' = ''Lost''"
    "replace_regex seg_map ''12'' = ''Lost''"
    "replace_regex seg_map ''13'' = ''Lost''"
    "replace_regex seg_map ''14'' = ''At risk''"
    "replace_regex seg_map ''15'' = ''At risk''"
    "replace_regex seg_map ''21'' = ''Lost''"
    "replace_regex seg_map ''22'' = ''Hibernating''"
    "replace_regex seg_map ''23'' = ''Hibernating''"
    "replace_regex seg_map ''24'' = ''At risk''"
    "replace_regex seg_map ''25'' = ''At risk''"
    "replace_regex seg_map ''31'' = ''Potential loyalist''"
    "replace_regex seg_map ''32'' = ''Potential loyalist''"
    "replace_regex seg_map ''33'' = ''Potential loyalist''"
    "replace_regex seg_map ''34'' = ''Loyal customers''"
    "replace_regex seg_map ''35'' = ''Loyal customers''"
    "replace_regex seg_map ''41'' = ''Potential loyalist''"
    "replace_regex seg_map ''42'' = ''Potential loyalist''"
    "replace_regex seg_map ''43'' = ''Potential loyalist''"
    "replace_regex seg_map ''44'' = ''Champions''"
    "replace_regex seg_map ''45'' = ''Champions''"
    "replace_regex seg_map ''51'' = ''Potential loyalist''"
    "replace_regex seg_map ''52'' = ''Potential loyalist''"
    "replace_regex seg_map ''53'' = ''Potential loyalist''"
    "replace_regex seg_map ''54'' = ''Champions''"
    "replace_regex seg_map ''55'' = ''Champions''"
  by code_simp+

lemma found_codes:
  "patterns_found ''11'' = [''Lost'']"
    "patterns_found ''12'' = [''Lost'']"
    "patterns_found ''13'' = [''Lost'']"
    "patterns_found ''14'' = [''At risk'']"
    "patterns_found ''15'' = [''At risk'']"
    "patterns_found ''21'' = [''Lost'']"
    "patterns_found ''22'' = [''Hibernating'']"
    "patterns_found ''23'' = [''Hibernating'']"
    "patterns_found ''24'' = [''At risk'']"
    "patterns_found ''25'' = [''At risk'']"
    "patterns_found ''31'' = [''Potential loyalist'']"
    "patterns_found ''32'' = [''Potential loyalist'']"
    "patterns_found ''33'' = [''Potential loyalist'']"
    "patterns_found ''34'' = [''Loyal customers'']"
    "patterns_found ''35'' = [''Loyal customers'']"
    "patterns_found ''41'' = [''Potential loyalist'']"
    "patterns_found ''42'' = [''Potential loyalist'']"
    "patterns_found ''43'' = [''Potential loyalist'']"
    "patterns_found ''44'' = [''Champions'']"
    "patterns_found ''45'' = [''Champions'']"
    "patterns_found ''51'' = [''Potential loyalist'']"
    "patterns_found ''52'' = [''Potential loyalist'']"
    "patterns_found ''53'' = [''Potential loyalist'']"
    "patterns_found ''54'' = [''Champions'']"
    "patterns_found ''55'' = [''Champions'']"
  by code_simp+

lemma spec_rows:
  "spec_labels 1 1 = [''Lost'']"
    "spec_labels 1 2 = [''Lost'']"
    "spec_labels 1 3 = [''Lost'']"
    "spec_labels 1 4 = [''At risk'']"
    "spec_labels 1 5 = [''At risk'']"
    "spec_labels 2 1 = [''Lost'']"
    "spec_labels 2 2 = [''Hibernating'']"
    "spec_labels 2 3 = [''Hibernating'']"
    "spec_labels 2 4 = [''At risk'']"
    "spec_labels 2 5 = [''At risk'']"
    "spec_labels 3 1 = [''Potential loyalist'']"
    "spec_labels 3 2 = [''Potential loyalist'']"
    "spec_labels 3 3 = [''Potential loyalist'']"
    "spec_labels 3 4 = [''Loyal customers'']"
    "spec_labels 3 5 = [''Loyal customers'']"
    "spec_labels 4 1 = [''Potential loyalist'']"
    "spec_labels 4 2 = [''Potential loyalist'']"
    "spec_labels 4 3 = [''Potential loyalist'']"
    "spec_labels 4 4 = [''Champions'']"
    "spec_labels 4 5 = [''Champions'']"
    "spec_labels 5 1 = [''Potential loyalist'']"
    "spec_labels 5 2 = [''Potential loyalist'']"
    "spec_labels 5 3 = [''Potential loyalist'']"
    "spec_labels 5 4 = [''Champions'']"
    "spec_labels 5 5 = [''Champions'']"
  by code_simp+

lemma upt_1_6: "[1..<6] = [1, 2, 3, 4, 5 :: nat]"
  by code_simp

lemma all_score_pairs_classified:
  "list_all (\<lambda>r. list_all (\<lambda>f.
      classify r f \<in> set segment_labels \<and>
      spec_labels r f = [classify r f] \<and>
      patterns_found (rf_code (Some r) (Some f)) = [classify r f]) [1..<6]) [1..<6]"
  unfolding upt_1_6 list.pred_inject classify_def rf_codes replace_codes found_codes spec_rows
    segment_labels_def
  by simp

lemma classify_cases:
  assumes "r \<in> {1..5}" and "f \<in> {1..5}"
  shows "classify r f \<in> set segment_labels"
    and "spec_labels r f = [classify r f]"
    and "patterns_found (rf_code (Some r) (Some f)) = [classify r f]"
proof -
  have s: "set [1..<6] = {1..5::nat}" by auto
  from all_score_pairs_classified assms
  have "classify r f \<in> set segment_labels \<and> spec_labels r f = [classify r f] \<and>
        patterns_found (rf_code (Some r) (Some f)) = [classify r f]"
    unfolding list_all_iff s by blast
  then show "classify r f \<in> set segment_labels"
    and "spec_labels r f = [classify r f]"
    and "patterns_found (rf_code (Some r) (Some f)) = [classify r f]"
    by blast+
qed

text \<open>
  C1. For each of the 25 score pairs, exactly one row of the specification's table holds
  of the pair, exactly one pattern of \<open>seg_map\<close> is found in its code, and the label the
  code assigns is the label of both.
\<close>

theorem segment_table_total_exclusive:
  "\<forall>r\<in>{1..5}. \<forall>f\<in>{1..5}.
     spec_labels r f = [classify r f] \<and>
     patterns_found (rf_code (Some r) (Some f)) = [classify r f]"
proof -
  have s: "set [1..<6] = {1..5::nat}" by auto
  show ?thesis using all_score_pairs_classified unfolding list_all_iff s by blast
qed

theorem segment_table_total_exclusive_witness:
  "spec_labels 5 4 = [''Champions''] \<and> classify 5 4 = ''Champions'' \<and>
   patterns_found ''54'' = [''Champions'']"
proof -
  have m: "(5::nat) \<in> {1..5}" "(4::nat) \<in> {1..5}" by simp_all
  have c: "rf_code (Some 5) (Some 4) = ''54''" by code_simp
  have l: "spec_labels 5 4 = [''Champions'']" by code_simp
  from segment_table_total_exclusive [rule_format, OF m]
  show ?thesis unfolding c l by simp
qed

lemma revenue_per_type_keys:
  "set (map seg_customers_type (revenue_per_type psum rfm)) = customers_type ` set rfm"
  by (simp add: revenue_per_type_def groupby_def o_def)

text \<open>
  C9. \<open>create_rfm_df\<close> never returns a table in which a customer's \<open>customers_type\<close>, or
  a row of the segment revenue table, carries anything but one of the six segment labels:
  every code it generates is covered by \<open>seg_map\<close>. This holds whatever routine sums the
  prices.
\<close>

theorem customers_type_closed:
  assumes ok: "create_rfm_df psum df = Inr (rfm, seg)"
  shows "(\<forall>c\<in>set rfm. customers_type c \<in> set segment_labels) \<and>
         (\<forall>s\<in>set seg. seg_customers_type s \<in> set segment_labels)"
proof -
  have rows: "customers_type c \<in> set segment_labels" if "c \<in> set rfm" for c
  proof -
    from that obtain i where i: "i < length rfm" "c = rfm ! i" by (auto simp: in_set_conv_nth)
    define rx where "rx = map (\<lambda>r. rat_of_int (recency r)) rfm"
    define fx where "fx = map rat_of_nat (rank_first (map frequency rfm))"
    define kr where "kr = cut_id (bin_edges rx 5) (rx ! i)"
    define kf where "kf = cut_id (bin_edges fx 5) (fx ! i)"
    note S = scores_of_rows [OF ok i(1), folded rx_def fx_def, folded kr_def kf_def, folded i(2)]
    note C = run_columns(8) [OF ok, rule_format, OF that]
    have "customers_type c = replace_regex seg_map (rf_code (r_score c) (f_score c))"
      using C by simp
    then have e: "customers_type c = classify (6 - kr) kf"
      by (simp only: S(1,2) classify_def)
    have "6 - kr \<in> {1..5}" "kf \<in> {1..5}" using S(3-6) by auto
    then have "classify (6 - kr) kf \<in> set segment_labels" by (rule classify_cases(1))
    then show ?thesis by (simp only: e)
  qed
  from ok obtain d ms rs fs where seg: "seg = revenue_per_type psum rfm"
    by (rule create_rfm_df_Inr)
  have segs: "seg_customers_type s \<in> set segment_labels" if "s \<in> set seg" for s
  proof -
    from that have "seg_customers_type s \<in> set (map seg_customers_type (revenue_per_type psum rfm))"
      unfolding seg by simp
    then obtain c where "c \<in> set rfm" "seg_customers_type s = customers_type c"
      unfolding revenue_per_type_keys by blast
    with rows show ?thesis by simp
  qed
  from rows segs show ?thesis by blast
qed

theorem customers_type_closed_witness:
  "create_rfm_df group_sum five_customers = Inr (five_rfm, five_seg) \<and>
   list_all (\<lambda>c. customers_type c \<in> set segment_labels) five_rfm \<and>
   list_all (\<lambda>s. seg_customers_type s \<in> set segment_labels) five_seg"
  using customers_type_closed [OF five_customers_run] five_customers_run
  unfolding list_all_iff by blast

end
